theory Spec2Isabelle
  imports Complex_Main "HOL-Library.Multiset"
begin

section \<open>The Attention Network Test (ant.py): data model\<close>

text \<open>
  The program is a Python class \<^verbatim>\<open>ANTExp\<close> that presents timed trials through PsychoPy.
  Times are Python floats read from a clock; the model takes them as real numbers, so
  every statement about a time is a statement of exact real arithmetic. Python strings
  are \<^typ>\<open>string\<close>, a Python value that may be \<^verbatim>\<open>None\<close> is an option, and every exception the
  modelled code can raise is a value of \<open>error\<close>.
\<close>

datatype error = UnboundLocalError | KeyError | IndexError | ValueError | ZeroDivisionError

type_synonym point = "real \<times> real"

text \<open>
  \<^verbatim>\<open>visual.ShapeStim(win, pos=pos, lineColor=None, fillColor='black', units='deg', vertices=vertices)\<close>:
  the position and the vertices are what the source computes; window, colours and units are
  the same constants in every call.
\<close>

record ShapeStim =
  pos :: point
  vertices :: "point list"

text \<open>\<^verbatim>\<open>Bunch(cue=cue, tloc=tloc, tdir=tdir, flank=flank)\<close>\<close>

record condition =
  cue :: string
  tloc :: string
  tdir :: string
  flank :: string

text \<open>
  The attributes of \<^verbatim>\<open>self\<close> that the modelled methods read. \<open>visTarget\<close> is the dictionary
  of prepared target composites; a composite \<^verbatim>\<open>BufferImageStim(win, stim=lines + heads)\<close> is the
  list of its shapes.
\<close>

record ANTExp =
  refreshRate :: real
  frameTime :: real
  startTime :: real
  runDummy :: bool
  original :: bool
  tD1min :: int
  tD1max :: int
  tCue :: int
  tNoCue :: int
  tOut :: int
  tDummy :: int
  tExp :: int
  arrowSize :: real
  arrowSep :: real
  cueSize :: real
  allWidthDeg :: real
  targetDist :: real
  procedures :: "condition list"
  visTarget :: "string \<rightharpoonup> ShapeStim list"

section \<open>Stimulus geometry\<close>

text \<open>
  \<^verbatim>\<open>_drawLine(self, pos, sz, pw, short, tdir)\<close>, lines 108-119. The direction is a string or
  \<^verbatim>\<open>None\<close>.
\<close>

definition drawLine :: "point \<Rightarrow> real \<Rightarrow> real \<Rightarrow> bool \<Rightarrow> string option \<Rightarrow> ShapeStim" where
  "drawLine p sz pw short dir =
     (let a = sz / 2 in
      \<lparr>pos = p,
       vertices =
         (if short \<and> dir = Some ''left'' then [(a, pw), (- a / 3, pw), (- a / 3, - pw), (a, - pw)]
          else if short \<and> dir = Some ''right'' then [(- a, pw), (a / 3, pw), (a / 3, - pw), (- a, - pw)]
          else [(- a, pw), (a, pw), (a, - pw), (- a, - pw)])\<rparr>)"

text \<open>
  \<^verbatim>\<open>_drawHead(self, pos, sz, pw, tdir)\<close>, lines 121-128. For a direction that is neither
  \<^verbatim>\<open>'left'\<close> nor \<^verbatim>\<open>'right'\<close> the local \<^verbatim>\<open>vertices\<close> is never assigned and the return statement
  raises.
\<close>

definition drawHead :: "point \<Rightarrow> real \<Rightarrow> real \<Rightarrow> string option \<Rightarrow> error + ShapeStim" where
  "drawHead p sz pw dir =
     (let a = sz / 2 in
      if dir = Some ''left'' then
        Inr \<lparr>pos = p, vertices = [(- a / 3, a / 3), (- a, 0), (- a / 3, - a / 3)]\<rparr>
      else if dir = Some ''right'' then
        Inr \<lparr>pos = p, vertices = [(a / 3, a / 3), (a, 0), (a / 3, - a / 3)]\<rparr>
      else Inl UnboundLocalError)"

text \<open>A list comprehension whose element expression may raise: the first exception wins.\<close>

fun collect :: "(error + 'a) list \<Rightarrow> error + 'a list" where
  "collect [] = Inr []"
| "collect (Inl e # rs) = Inl e"
| "collect (Inr x # rs) = (case collect rs of Inl e \<Rightarrow> Inl e | Inr xs \<Rightarrow> Inr (x # xs))"

text \<open>
  \<^verbatim>\<open>_targetStim(self, tloc, tdir, flank)\<close>, lines 131-159. When \<^verbatim>\<open>runDummy\<close> is off and
  \<^verbatim>\<open>flank\<close> is none of the three tags, \<^verbatim>\<open>lines\<close> is unassigned at the return.
\<close>

definition targetStim :: "ANTExp \<Rightarrow> string \<Rightarrow> string \<Rightarrow> string \<Rightarrow> error + ShapeStim list" where
  "targetStim self loc dir fl =
     (let sz = arrowSize self;
          pw = allWidthDeg self;
          p = arrowSize self + arrowSep self;
          y = (if loc = ''top'' then targetDist self else - targetDist self)
      in
      if runDummy self then
        Inr (map (\<lambda>x. drawLine (x, y) sz pw False None) [- 2 * p, - p, 0, p, 2 * p] @ [])
      else if fl = ''neutral'' then
        (let lines = map (\<lambda>x. drawLine (x, y) sz pw False None) [- 2 * p, - p, p, 2 * p];
             lines = lines @ [drawLine (0, y) sz pw True (Some dir)]
         in case collect [drawHead (0, y) sz pw (Some dir)] of
              Inl e \<Rightarrow> Inl e
            | Inr heads \<Rightarrow> Inr (lines @ heads))
      else if fl = ''congruent'' then
        (let lines = map (\<lambda>x. drawLine (x, y) sz pw True (Some dir)) [- 2 * p, - p, 0, p, 2 * p]
         in case collect (map (\<lambda>x. drawHead (x, y) sz pw (Some dir)) [- 2 * p, - p, 0, p, 2 * p]) of
              Inl e \<Rightarrow> Inl e
            | Inr heads \<Rightarrow> Inr (lines @ heads))
      else if fl = ''incongruent'' then
        (let rdir = (if dir = ''right'' then ''left'' else ''right'');
             lines = map (\<lambda>x. drawLine (x, y) sz pw True (Some rdir)) [- 2 * p, - p, p, 2 * p]
         in case collect (map (\<lambda>x. drawHead (x, y) sz pw (Some rdir)) [- 2 * p, - p, p, 2 * p]) of
              Inl e \<Rightarrow> Inl e
            | Inr heads \<Rightarrow>
                (let lines = lines @ [drawLine (0, y) sz pw True (Some dir)]
                 in case collect [drawHead (0, y) sz pw (Some dir)] of
                      Inl e \<Rightarrow> Inl e
                    | Inr h \<Rightarrow> Inr (lines @ (heads @ h))))
      else Inl UnboundLocalError)"

section \<open>Construction of the experiment\<close>

text \<open>
  \<^verbatim>\<open>__init__\<close>, lines 161-230, without the window, the monitor and the two stimuli
  \<^verbatim>\<open>visFix\<close> and \<^verbatim>\<open>visCue\<close> (the trial only draws them), and without the header line it
  prints. \<^verbatim>\<open>1.0 / refreshRate\<close> raises for a zero rate.
\<close>

definition enumerate_procedures :: "condition list" where
  "enumerate_procedures =
     concat (map (\<lambda>c. concat (map (\<lambda>l. concat (map (\<lambda>d. map (\<lambda>f.
        \<lparr>cue = c, tloc = l, tdir = d, flank = f\<rparr>)
        [''incongruent'', ''neutral'', ''congruent''])
        [''left'', ''right''])) [''top'', ''bottom''])) [''no'', ''spatial'', ''center'', ''double''])"

fun fill_visTarget :: "ANTExp \<Rightarrow> (string \<times> string \<times> string) list \<Rightarrow> error + ANTExp" where
  "fill_visTarget self [] = Inr self"
| "fill_visTarget self ((l, d, f) # ks) =
     (case targetStim self l d f of
        Inl e \<Rightarrow> Inl e
      | Inr stim \<Rightarrow> fill_visTarget (self\<lparr>visTarget := (visTarget self)(l @ d @ f \<mapsto> stim)\<rparr>) ks)"

definition ANTExp_init :: "real \<Rightarrow> real \<Rightarrow> bool \<Rightarrow> bool \<Rightarrow> error + ANTExp" where
  "ANTExp_init rate start dummy orig =
     (if rate = 0 then Inl ZeroDivisionError
      else fill_visTarget
        \<lparr>refreshRate = rate, frameTime = 1 / rate, startTime = start,
         runDummy = dummy, original = orig,
         tD1min = 400, tD1max = 1600, tCue = 100, tNoCue = 400, tOut = 1700, tDummy = 700,
         tExp = 4000,
         arrowSize = 0.55, arrowSep = 0.06, cueSize = 0.35, allWidthDeg = 0.04,
         targetDist = 1.06,
         procedures = enumerate_procedures,
         visTarget = Map.empty\<rparr>
        (concat (map (\<lambda>l. concat (map (\<lambda>d. map (\<lambda>f. (l, d, f))
           [''incongruent'', ''neutral'', ''congruent''])
           [''left'', ''right''])) [''top'', ''bottom''])))"

section \<open>The collaborators: clock, display, keyboard, random source\<close>

text \<open>\<^verbatim>\<open>Bunch(condition=..., wt=..., t0=..., d1=..., ct=..., d2=..., rt=..., tf=..., resp=...)\<close>\<close>

record result =
  condition :: condition
  wt :: real
  t0 :: real
  d1 :: real
  ct :: real
  d2 :: real
  rt :: real
  tf :: real
  resp :: "string option"

text \<open>
  Every call the modelled code makes to PsychoPy or to an output stream, in the order it is
  made. \<open>Wait secs hog\<close> is \<^verbatim>\<open>core.wait(secs, hogCPUperiod)\<close>, \<open>WaitKeys m\<close> is
  \<^verbatim>\<open>event.waitKeys(maxWait=m, timeStamped=clock)\<close>. \<open>LogLine\<close> is the line written per
  completed trial (to the log file, or to standard output without one): the model keeps the
  record whose fields the line formats, not its text.
\<close>

datatype stimulus = VisFix | VisCue point | VisTarget "ShapeStim list"

datatype call =
    Draw stimulus
  | Flip
  | Wait real real
  | ClearEvents
  | WaitKeys real
  | PrintGot string real string
  | PrintTimeout
  | LogLine result
  | Stderr string

text \<open>
  The environment is scripted: \<open>clockScript w n\<close> is what the \<open>n\<close>-th call of
  \<^verbatim>\<open>clock.getTime()\<close> returns, \<open>keyScript w n\<close> what the \<open>n\<close>-th call of \<^verbatim>\<open>event.waitKeys\<close>
  returns (\<^verbatim>\<open>None\<close> on timeout, else the list of (key, timestamp) pairs), and
  \<open>rndScript w n\<close> is the \<open>n\<close>-th raw draw of the random generator. The positions count the
  calls made so far, and \<open>trace\<close> lists them.
\<close>

record world =
  clockScript :: "nat \<Rightarrow> real"
  clockPos :: nat
  keyScript :: "nat \<Rightarrow> (string \<times> real) list option"
  keyPos :: nat
  rndScript :: "nat \<Rightarrow> nat"
  rndPos :: nat
  trace :: "call list"

definition emit :: "call \<Rightarrow> world \<Rightarrow> world" where
  "emit c w = w\<lparr>trace := trace w @ [c]\<rparr>"

definition draw :: "stimulus \<Rightarrow> world \<Rightarrow> world" where
  "draw s w = emit (Draw s) w"

definition flip :: "world \<Rightarrow> world" where
  "flip w = emit Flip w"

definition core_wait :: "real \<Rightarrow> real \<Rightarrow> world \<Rightarrow> world" where
  "core_wait secs hog w = emit (Wait secs hog) w"

definition clearEvents :: "world \<Rightarrow> world" where
  "clearEvents w = emit ClearEvents w"

definition getTime :: "world \<Rightarrow> real \<times> world" where
  "getTime w = (clockScript w (clockPos w), w\<lparr>clockPos := Suc (clockPos w)\<rparr>)"

definition waitKeys :: "real \<Rightarrow> world \<Rightarrow> (string \<times> real) list option \<times> world" where
  "waitKeys maxWait w =
     (keyScript w (keyPos w), emit (WaitKeys maxWait) (w\<lparr>keyPos := Suc (keyPos w)\<rparr>))"

text \<open>
  \<^verbatim>\<open>int(random() * n)\<close> of Python's \<^verbatim>\<open>random\<close> module: a number below \<open>n\<close>. The raw draw is
  reduced modulo \<open>n\<close>, so every number below \<open>n\<close> is a possible outcome and no other is.
\<close>

definition random_below :: "nat \<Rightarrow> world \<Rightarrow> nat \<times> world" where
  "random_below n w = (rndScript w (rndPos w) mod n, w\<lparr>rndPos := Suc (rndPos w)\<rparr>)"

text \<open>
  Modelled from the spec: \<^verbatim>\<open>random.randrange(start, stop, step)\<close> belongs to Python's
  standard library and is not among the sources. The specification has the waiting time
  drawn from the discretised range from \<open>start\<close> up to, not including, \<open>stop\<close> in steps of
  \<open>step\<close>; the library raises \<^verbatim>\<open>ValueError\<close> for an empty range or a zero step.
\<close>

definition randrange :: "int \<Rightarrow> int \<Rightarrow> int \<Rightarrow> world \<Rightarrow> (error + int) \<times> world" where
  "randrange start stop step w =
     (let width = stop - start;
          n = (if 0 < step then (width + step - 1) div step else (width + step + 1) div step)
      in if step = 0 \<or> n \<le> 0 then (Inl ValueError, w)
         else (let (k, w) = random_below (nat n) w in (Inr (start + step * int k), w)))"

text \<open>
  Modelled from the spec: \<^verbatim>\<open>random.sample(population, k)\<close> belongs to Python's standard
  library and is not among the sources. The specification has it sample without replacement:
  each pick removes the picked element from the pool (the last element of the pool moves into
  its place), as the library does for a population of this size. A sample larger than the
  population raises \<^verbatim>\<open>ValueError\<close>.
\<close>

fun sample_pool :: "nat \<Rightarrow> 'a list \<Rightarrow> world \<Rightarrow> 'a list \<times> world" where
  "sample_pool 0 pool w = ([], w)"
| "sample_pool (Suc k) pool w =
     (let (j, w) = random_below (length pool) w;
          (rest, w) = sample_pool k (butlast (pool[j := last pool])) w
      in (pool ! j # rest, w))"

definition sample :: "'a list \<Rightarrow> nat \<Rightarrow> world \<Rightarrow> (error + 'a list) \<times> world" where
  "sample population k w =
     (if length population < k then (Inl ValueError, w)
      else (let (picked, w) = sample_pool k population w in (Inr picked, w)))"

section \<open>One trial\<close>

text \<open>The nested function \<^verbatim>\<open>waitAndFlip(t)\<close>, lines 254-264.\<close>

definition waitAndFlip :: "ANTExp \<Rightarrow> real \<Rightarrow> world \<Rightarrow> real \<times> world" where
  "waitAndFlip self t w =
     (let (now, w) = getTime w;
          w = core_wait (t - now - frameTime self) (frameTime self / 2) w;
          w = flip w
      in getTime w)"

text \<open>
  \<^verbatim>\<open>_oneProcedure(self, condition, short=False)\<close>, lines 233-354. The result is an exception,
  \<^verbatim>\<open>None\<close> (the user halted) or the record of the trial. The local \<^verbatim>\<open>resp\<close> (here \<open>resp'\<close>) is
  unassigned (\<open>None\<close>), or assigned a string or Python's \<^verbatim>\<open>None\<close> (\<open>Some None\<close>).
\<close>

definition oneProcedure ::
    "ANTExp \<Rightarrow> condition \<Rightarrow> bool \<Rightarrow> world \<Rightarrow> (error + result option) \<times> world" where
  "oneProcedure self cond short w =
     (let w = draw VisFix w;
          w = flip w;
          (t0, w) = getTime w;
          (r, w) = randrange (tD1min self) (tD1max self) 10 w
      in case r of
           Inl e \<Rightarrow> (Inl e, w)
         | Inr r \<Rightarrow>
     (let w =
            (if cue cond \<noteq> ''no'' then
               (let w = (if cue cond = ''double'' \<or> (cue cond = ''spatial'' \<and> tloc cond = ''top'')
                         then draw (VisCue (0, targetDist self))
                                (if original self then draw VisFix w else w)
                         else w);
                    w = (if cue cond = ''double'' \<or> (cue cond = ''spatial'' \<and> tloc cond = ''bottom'')
                         then draw (VisCue (0, - targetDist self))
                                (if original self then draw VisFix w else w)
                         else w)
                in if cue cond = ''center'' then draw (VisCue (0, 0)) w else w)
             else draw VisFix w);
          (f, w) = waitAndFlip self (t0 + real_of_int r / 1000) w;
          d1 = f - t0;
          w = draw VisFix w;
          (f, w) = waitAndFlip self (t0 + d1 + 0.1) w;
          ct = f - t0 - d1
      in case visTarget self (tloc cond @ tdir cond @ flank cond) of
           None \<Rightarrow> (Inl KeyError, w)
         | Some target \<Rightarrow>
     (let w = draw (VisTarget target) w;
          w = (if original self then draw VisFix w else w);
          (f, w) = waitAndFlip self (t0 + d1 + 0.1 + 0.4) w;
          d2 = f - t0 - d1 - ct;
          w = clearEvents w;
          (keys, w) =
            (if runDummy self then waitKeys (real_of_int (tDummy self) / 1000 - frameTime self) w
             else waitKeys (real_of_int (tOut self) / 1000 - frameTime self) w)
      in case (case keys of
                 Some [] \<Rightarrow> Inl IndexError
               | Some ((k, stamp) # others) \<Rightarrow>
                   (let w = emit (PrintGot k stamp (tdir cond)) w in
                    if k = ''escape'' then Inr (True, Some (Some ''QUIT''), w)
                    else if k = ''0'' then Inr (False, None, core_wait 100 0.2 w)
                    else if k = tdir cond \<or>
                            (k \<in> set [''f'', ''a'', ''z'', ''q''] \<and> tdir cond = ''left'') \<or>
                            (k \<in> set [''j'', ''m'', ''l'', ''p''] \<and> tdir cond = ''right'')
                         then Inr (False, Some (Some ''OK''), w)
                    else Inr (False, Some (Some ''NOK''), w))
               | None \<Rightarrow> Inr (False, Some None, emit PrintTimeout w)) of
           Inl e \<Rightarrow> (Inl e, w)
         | Inr (quit, resp', w) \<Rightarrow>
     (let (now, w) = getTime w;
          rt = now - t0 - d2 - ct - d1;
          w = (if original self then draw VisFix w else w);
          w = flip w;
          w = (if original self then draw VisFix w else w);
          (tf, w) =
            (if \<not> short then (let (f, w) = waitAndFlip self (t0 + 4.0) w in (f - t0, w))
             else (let (now, w) = getTime w in (now - t0, w)))
      in if quit then (Inr None, w)
         else (case resp' of
                 None \<Rightarrow> (Inl UnboundLocalError, w)
               | Some r' \<Rightarrow>
                   (Inr (Some \<lparr>condition = cond, wt = startTime self + t0, t0 = t0, d1 = d1,
                               ct = ct, d2 = d2, rt = rt, tf = tf, resp = r'\<rparr>), w))))))"

section \<open>One experimental block\<close>

text \<open>
  The loop of \<^verbatim>\<open>fullExperiment\<close>, lines 403-442, over the rest of the random order. The
  locals \<^verbatim>\<open>warningType\<close> and \<^verbatim>\<open>congruency\<close> keep their value from one iteration to the
  next and are unassigned (\<open>None\<close>) before the first. A row of \<^verbatim>\<open>expData\<close> is the list of its 11
  numbers.
\<close>

fun fullLoop ::
    "ANTExp \<Rightarrow> nat list \<Rightarrow> int option \<Rightarrow> real option \<Rightarrow> real option \<Rightarrow> real list list \<Rightarrow> world
       \<Rightarrow> (error + real list list option) \<times> world" where
  "fullLoop self [] maxrun warningType congruency expData w =
     (Inr (Some (filter (\<lambda>row. row ! 10 = 1) expData)), w)"
| "fullLoop self (i # rest) maxrun warningType congruency expData w =
     (if length (procedures self) \<le> i then (Inl IndexError, w)
      else case oneProcedure self (procedures self ! i) False w of
        (Inl e, w) \<Rightarrow> (Inl e, w)
      | (Inr None, w) \<Rightarrow> (Inr None, w)
      | (Inr (Some res), w) \<Rightarrow>
          (let w = emit (LogLine res) w;
               cond = procedures self ! i;
               (warningType, w) =
                 (if cue cond = ''no'' then (Some 0, w)
                  else if cue cond = ''center'' then (Some 1, w)
                  else if cue cond = ''double'' then (Some 2, w)
                  else if cue cond = ''spatial'' then (Some 3, w)
                  else (warningType, emit (Stderr (cue cond)) w));
               (congruency, w) =
                 (if flank cond = ''congruent'' then (Some 0, w)
                  else if flank cond = ''incongruent'' then (Some 1, w)
                  else if flank cond = ''neutral'' then (Some 2, w)
                  else (congruency, emit (Stderr (flank cond)) w))
           in case (warningType, congruency) of
                (Some wty, Some cgr) \<Rightarrow>
                  (let expData = expData[i := [t0 res, real i, wty, cgr, d1 res, ct res, d2 res,
                                               rt res, tf res,
                                               (if resp res = Some ''OK'' then 1 else 0), 1]]
                   in case maxrun of
                        None \<Rightarrow> fullLoop self rest None warningType congruency expData w
                      | Some m \<Rightarrow>
                          (if m - 1 = 0 then (Inr (Some (filter (\<lambda>row. row ! 10 = 1) expData)), w)
                           else fullLoop self rest (Some (m - 1)) warningType congruency expData w))
              | _ \<Rightarrow> (Inl UnboundLocalError, w)))"

text \<open>\<^verbatim>\<open>fullExperiment(self, maxrun=None)\<close>, lines 378-444.\<close>

definition fullExperiment ::
    "ANTExp \<Rightarrow> int option \<Rightarrow> world \<Rightarrow> (error + real list list option) \<times> world" where
  "fullExperiment self maxrun w =
     (let n = length (procedures self);
          expData = replicate n (replicate 11 0);
          (order, w) = sample [0..<n] n w
      in case order of
           Inl e \<Rightarrow> (Inl e, w)
         | Inr order \<Rightarrow> fullLoop self order maxrun None None expData w)"

section \<open>Notions of the specification\<close>

text \<open>
  What the specification says a composite shows at one of its five positions: an arrow
  pointing in a direction, or a plain line with no head. \<open>glyph_at\<close> reads it off the shapes
  drawn at that position, whatever made them. A head is a triangle; it points to the side
  on which its apex (the second vertex) lies from its base. A body is a quadrilateral. An
  arrow is one body and one head, the base of the head at the end of the body on the side
  the head points to; a plain line is one body and no head.
\<close>

datatype glyph = Arrow string | Plain

definition head_direction :: "ShapeStim \<Rightarrow> string" where
  "head_direction h =
     (if fst (vertices h ! 1) < fst (vertices h ! 0) then ''left'' else ''right'')"

definition glyph_at :: "ShapeStim list \<Rightarrow> point \<Rightarrow> glyph option" where
  "glyph_at stim p =
     (let here = filter (\<lambda>s. pos s = p) stim;
          heads = filter (\<lambda>s. length (vertices s) = 3) here;
          bodies = filter (\<lambda>s. length (vertices s) = 4) here
      in case (bodies, heads) of
           ([b], []) \<Rightarrow> Some Plain
         | ([b], [h]) \<Rightarrow>
             (let d = head_direction h;
                  base = fst (vertices h ! 0);
                  xs = map fst (vertices b)
              in if (d = ''left'' \<and> foldr min xs (hd xs) = base) \<or>
                    (d = ''right'' \<and> foldr max xs (hd xs) = base)
                 then Some (Arrow d) else None)
         | _ \<Rightarrow> None)"

text \<open>The five positions of a composite at the given location, left to right.\<close>

definition positions :: "ANTExp \<Rightarrow> string \<Rightarrow> point list" where
  "positions self loc =
     (let p = arrowSize self + arrowSep self;
          y = (if loc = ''top'' then targetDist self else - targetDist self)
      in map (\<lambda>x. (x, y)) [- 2 * p, - p, 0, p, 2 * p])"

definition opposite :: "string \<Rightarrow> string" where
  "opposite d = (if d = ''left'' then ''right'' else ''left'')"

text \<open>
  The specification's alias sets, in its words: a response counts for the direction left
  when the key is one of f, a, z, q or the left arrow, for the direction right when it is one of
  j, m, l, p or the right arrow. The keyboard names the arrow keys \<^verbatim>\<open>'left'\<close> and \<^verbatim>\<open>'right'\<close>.
\<close>

definition alias_set :: "string \<Rightarrow> string list" where
  "alias_set dir =
     (if dir = ''left'' then [''f'', ''a'', ''z'', ''q'', ''left'']
      else if dir = ''right'' then [''j'', ''m'', ''l'', ''p'', ''right'']
      else [])"

section \<open>Tools of the proofs about runs\<close>

text \<open>
  The definitions of this section are tools of the proofs, not parts of the program.
  \<open>adv a b k es w\<close> is the world \<open>w\<close> after \<open>a\<close> further clock reads, \<open>b\<close> further key waits,
  \<open>k\<close> further random draws and the further calls \<open>es\<close>; \<open>emits\<close> appends several calls.
  \<open>is_timing\<close> selects the calls that take time or touch the keyboard queue, \<open>logged\<close> the
  trial records written to the log, \<open>key_waits\<close> the timeouts passed to the key waits.
\<close>

definition adv :: "nat \<Rightarrow> nat \<Rightarrow> nat \<Rightarrow> call list \<Rightarrow> world \<Rightarrow> world" where
  "adv a b k es w =
     w\<lparr>clockPos := clockPos w + a, keyPos := keyPos w + b, rndPos := rndPos w + k,
       trace := trace w @ es\<rparr>"

definition emits :: "call list \<Rightarrow> world \<Rightarrow> world" where
  "emits es w = w\<lparr>trace := trace w @ es\<rparr>"

fun is_timing :: "call \<Rightarrow> bool" where
  "is_timing Flip = True"
| "is_timing (Wait s h) = True"
| "is_timing ClearEvents = True"
| "is_timing (WaitKeys m) = True"
| "is_timing c = False"

fun logged :: "call list \<Rightarrow> result list" where
  "logged [] = []"
| "logged (LogLine r # cs) = r # logged cs"
| "logged (c # cs) = logged cs"

text \<open>
  The record a trial returns and the timing calls it makes, in terms of the clock readings
  \<open>C n\<close> that follow the world \<open>w\<close> in which it starts: \<open>C 0\<close> is the start of the trial,
  \<open>C 2\<close>, \<open>C 4\<close> and \<open>C 6\<close> are the stamps of the cue, post-cue and target flips, \<open>C 7\<close> is
  read when the response window has closed. \<open>r\<close> is the drawn waiting time, \<open>z\<close> says that
  the key was \<^verbatim>\<open>'0'\<close>.
\<close>

definition trial_record :: "ANTExp \<Rightarrow> condition \<Rightarrow> bool \<Rightarrow> world \<Rightarrow> string option \<Rightarrow> result" where
  "trial_record self cond short w r =
     (let C = (\<lambda>n. clockScript w (clockPos w + n)) in
      \<lparr>condition = cond, wt = startTime self + C 0, t0 = C 0, d1 = C 2 - C 0, ct = C 4 - C 2,
       d2 = C 6 - C 4, rt = C 7 - C 6, tf = (if short then C 8 else C 9) - C 0, resp = r\<rparr>)"

definition drawn_wait :: "ANTExp \<Rightarrow> world \<Rightarrow> int" where
  "drawn_wait self w =
     tD1min self + 10 * int (rndScript w (rndPos w) mod nat ((tD1max self - tD1min self + 9) div 10))"

definition window_timing :: "ANTExp \<Rightarrow> world \<Rightarrow> call list" where
  "window_timing self w =
     (let C = (\<lambda>n. clockScript w (clockPos w + n)); ft = frameTime self in
      [Flip,
       Wait (C 0 + real_of_int (drawn_wait self w) / 1000 - C 1 - ft) (ft / 2), Flip,
       Wait (C 2 + 0.1 - C 3 - ft) (ft / 2), Flip,
       Wait (C 2 + 0.1 + 0.4 - C 5 - ft) (ft / 2), Flip,
       ClearEvents,
       WaitKeys (real_of_int (if runDummy self then tDummy self else tOut self) / 1000 - ft)])"

definition trial_timing :: "ANTExp \<Rightarrow> bool \<Rightarrow> bool \<Rightarrow> world \<Rightarrow> call list" where
  "trial_timing self short z w =
     window_timing self w
      @ (if z then [Wait 100 0.2] else [])
      @ [Flip]
      @ (if short then []
         else [Wait (clockScript w (clockPos w) + 4 - clockScript w (clockPos w + 8) - frameTime self)
                 (frameTime self / 2), Flip])"

fun key_waits :: "call list \<Rightarrow> real list" where
  "key_waits [] = []"
| "key_waits (WaitKeys m # cs) = m # key_waits cs"
| "key_waits (c # cs) = key_waits cs"

section \<open>Tools of the proofs about blocks\<close>

text \<open>
  \<open>warning_code\<close>, \<open>congruency_code\<close> and \<open>table_row\<close>
  are the codes and the row that lines 417-437 compute for a condition with known tags.
  \<open>consumed maxrun order\<close> is the part of the random order that a block runs when no trial
  halts it: the loop leaves after \<open>maxrun\<close> trials when \<open>maxrun\<close> counts down to zero, which a
  \<open>maxrun\<close> below 1 never does. \<open>answered\<close> says that a key wait ended in a timeout or in a
  key that is scored.
\<close>

definition warning_code :: "string \<Rightarrow> real" where
  "warning_code c = (if c = ''no'' then 0 else if c = ''center'' then 1 else if c = ''double'' then 2 else 3)"

definition congruency_code :: "string \<Rightarrow> real" where
  "congruency_code f = (if f = ''congruent'' then 0 else if f = ''incongruent'' then 1 else 2)"

definition table_row :: "ANTExp \<Rightarrow> nat \<Rightarrow> result \<Rightarrow> real list" where
  "table_row self i res =
     [t0 res, real i, warning_code (cue (procedures self ! i)),
      congruency_code (flank (procedures self ! i)), d1 res, ct res, d2 res, rt res, tf res,
      (if resp res = Some ''OK'' then 1 else 0), 1]"

definition consumed :: "int option \<Rightarrow> nat list \<Rightarrow> nat list" where
  "consumed maxrun order =
     (case maxrun of None \<Rightarrow> order | Some m \<Rightarrow> if 1 \<le> m then take (nat m) order else order)"

definition answered :: "(string \<times> real) list option \<Rightarrow> bool" where
  "answered ks =
     (case ks of None \<Rightarrow> True | Some [] \<Rightarrow> False
      | Some ((k, stamp) # others) \<Rightarrow> k \<noteq> ''escape'' \<and> k \<noteq> ''0'')"

section \<open>Example runs\<close>

text \<open>
  Concrete worlds for the examples below. In \<open>world_mock\<close> the clock returns the flip stamps
  0, 0.5, 0.6 and 1.0 (readings 0, 2, 4, 6), and 1.2 when the response window has closed; the
  key is \<^verbatim>\<open>'f'\<close>. \<open>world_null\<close> differs in the key, which is \<^verbatim>\<open>'0'\<close>.
\<close>

definition world_mock :: world where
  "world_mock =
     \<lparr>clockScript = (\<lambda>n. [0, 0.45, 0.5, 0.55, 0.6, 0.95, 1.0, 1.2, 1.25, 4.0] ! n),
      clockPos = 0,
      keyScript = (\<lambda>n. Some [(''f'', 1.2)]), keyPos = 0,
      rndScript = (\<lambda>n. 10), rndPos = 0, trace = []\<rparr>"

definition world_null :: world where
  "world_null = world_mock\<lparr>keyScript := (\<lambda>n. Some [(''0'', 1.2)])\<rparr>"

text \<open>
  In \<open>world_144\<close> the display runs at 144 frames per second: the trial starts at 0, the
  shortest waiting time is drawn, and the cue flip is stamped with frame 57. No key is pressed.
\<close>

definition world_144 :: world where
  "world_144 =
     \<lparr>clockScript = (\<lambda>n. if n < 2 then real n / 1000 else real n * 57 / 288),
      clockPos = 0,
      keyScript = (\<lambda>n. None), keyPos = 0,
      rndScript = (\<lambda>n. 0), rndPos = 0, trace = []\<rparr>"

text \<open>\<open>world_key k\<close> is \<open>world_mock\<close> with the key \<open>k\<close> pressed, \<open>world_timeout\<close> with no key.\<close>

definition world_key :: "string \<Rightarrow> world" where
  "world_key k = world_mock\<lparr>keyScript := (\<lambda>n. Some [(k, 1.2)])\<rparr>"

definition world_timeout :: world where
  "world_timeout = world_mock\<lparr>keyScript := (\<lambda>n. None)\<rparr>"

text \<open>In \<open>world_abort\<close> the first trial times out and the second meets escape.\<close>

definition world_abort :: world where
  "world_abort =
     world_mock\<lparr>keyScript := (\<lambda>n. if n = 0 then None else Some [(''escape'', 1.2)])\<rparr>"

section \<open>Lemmas\<close>

subsection \<open>The glyphs of the composites\<close>

lemma glyph_cases:
  assumes sz: "0 < arrowSize self" and sep: "0 < arrowSize self + arrowSep self"
      and d: "d = ''left'' \<or> d = ''right''"
  shows "runDummy self \<Longrightarrow>
           \<exists>stim. targetStim self loc d fl = Inr stim \<and>
             map (glyph_at stim) (positions self loc) = [Some Plain, Some Plain, Some Plain, Some Plain, Some Plain]"
    and "\<not> runDummy self \<Longrightarrow>
           \<exists>stim. targetStim self loc d ''congruent'' = Inr stim \<and>
             map (glyph_at stim) (positions self loc) = [Some (Arrow d), Some (Arrow d), Some (Arrow d), Some (Arrow d), Some (Arrow d)]"
    and "\<not> runDummy self \<Longrightarrow>
           \<exists>stim. targetStim self loc d ''incongruent'' = Inr stim \<and>
             map (glyph_at stim) (positions self loc) =
               [Some (Arrow (opposite d)), Some (Arrow (opposite d)), Some (Arrow d),
                Some (Arrow (opposite d)), Some (Arrow (opposite d))]"
    and "\<not> runDummy self \<Longrightarrow>
           \<exists>stim. targetStim self loc d ''neutral'' = Inr stim \<and>
             map (glyph_at stim) (positions self loc) =
               [Some Plain, Some Plain, Some (Arrow d), Some Plain, Some Plain]"
  using assms
  by (auto simp: targetStim_def drawLine_def drawHead_def glyph_at_def head_direction_def
      positions_def opposite_def Let_def)

subsection \<open>Worlds in normal form\<close>

lemma adv_0: "adv 0 0 0 [] w = w"
  by (simp add: adv_def)

lemma adv_proj [simp]:
  "clockScript (adv a b k es w) = clockScript w"
  "keyScript (adv a b k es w) = keyScript w"
  "rndScript (adv a b k es w) = rndScript w"
  "clockPos (adv a b k es w) = clockPos w + a"
  "keyPos (adv a b k es w) = keyPos w + b"
  "rndPos (adv a b k es w) = rndPos w + k"
  "trace (adv a b k es w) = trace w @ es"
  by (simp_all add: adv_def)

lemma adv_adv: "adv a b k es (adv a' b' k' es' w) = adv (a' + a) (b' + b) (k' + k) (es' @ es) w"
  by (simp add: adv_def add.assoc)

lemma emit_adv: "emit c (adv a b k es w) = adv a b k (es @ [c]) w"
  by (simp add: adv_def emit_def)

lemma emits_adv: "emits cs (adv a b k es w) = adv a b k (es @ cs) w"
  by (simp add: adv_def emits_def)

lemma getTime_adv:
  "getTime (adv a b k es w) = (clockScript w (clockPos w + a), adv (Suc a) b k es w)"
  by (simp add: adv_def getTime_def)

lemma waitKeys_adv:
  "waitKeys m (adv a b k es w) =
     (keyScript w (keyPos w + b), adv a (Suc b) k (es @ [WaitKeys m]) w)"
  by (simp add: adv_def waitKeys_def emit_def)

lemma random_below_adv:
  "random_below n (adv a b k es w) = (rndScript w (rndPos w + k) mod n, adv a b (Suc k) es w)"
  by (simp add: adv_def random_below_def)

lemma randrange_adv:
  "0 < (stop - start + 9) div 10 \<Longrightarrow>
   randrange start stop 10 (adv a b k es w) =
     (Inr (start + 10 * int (rndScript w (rndPos w + k) mod nat ((stop - start + 9) div 10))),
      adv a b (Suc k) es w)"
  by (simp add: randrange_def random_below_adv Let_def add.commute)

lemma randrange_empty:
  "\<not> 0 < (stop - start + 9) div 10 \<Longrightarrow> randrange start stop 10 w = (Inl ValueError, w)"
  by (simp add: randrange_def Let_def add.commute)

lemma waitAndFlip_adv:
  "waitAndFlip self t (adv a b k es w) =
     (clockScript w (clockPos w + Suc a),
      adv (Suc (Suc a)) b k
        (es @ [Wait (t - clockScript w (clockPos w + a) - frameTime self) (frameTime self / 2),
               Flip]) w)"
  by (simp add: waitAndFlip_def getTime_adv core_wait_def flip_def emit_adv Let_def)

lemma if_draw: "(if c then draw s w else w) = emits (if c then [Draw s] else []) w"
  by (simp add: draw_def emit_def emits_def)

lemma if_waitKeys:
  "(if c then waitKeys (real_of_int m1 / 1000 - ft) w else waitKeys (real_of_int m2 / 1000 - ft) w) =
     waitKeys (real_of_int (if c then m1 else m2) / 1000 - ft) w"
  by simp

lemma if_scored:
  "(if c then Inr (q, Some (Some a), w) else Inr (q, Some (Some b), w)) =
     Inr (q, Some (Some (if c then a else b)), w)"
  by simp

lemma cue_block:
  "(if cue cond \<noteq> ''no'' then
      (let w = (if cue cond = ''double'' \<or> (cue cond = ''spatial'' \<and> tloc cond = ''top'')
                then draw (VisCue (0, targetDist self))
                       (if original self then draw VisFix w else w)
                else w);
           w = (if cue cond = ''double'' \<or> (cue cond = ''spatial'' \<and> tloc cond = ''bottom'')
                then draw (VisCue (0, - targetDist self))
                       (if original self then draw VisFix w else w)
                else w)
       in if cue cond = ''center'' then draw (VisCue (0, 0)) w else w)
    else draw VisFix w) =
   emits (if cue cond \<noteq> ''no'' then
            (if cue cond = ''double'' \<or> (cue cond = ''spatial'' \<and> tloc cond = ''top'')
             then (if original self then [Draw VisFix] else []) @ [Draw (VisCue (0, targetDist self))]
             else []) @
            (if cue cond = ''double'' \<or> (cue cond = ''spatial'' \<and> tloc cond = ''bottom'')
             then (if original self then [Draw VisFix] else []) @ [Draw (VisCue (0, - targetDist self))]
             else []) @
            (if cue cond = ''center'' then [Draw (VisCue (0, 0))] else [])
          else [Draw VisFix]) w"
  by (simp add: draw_def emit_def emits_def Let_def)

lemmas adv_steps = if_draw if_waitKeys if_scored cue_block draw_def flip_def core_wait_def
  clearEvents_def emit_adv emits_adv getTime_adv waitKeys_adv waitAndFlip_adv

lemma filter_if: "filter P (if c then xs else ys) = (if c then filter P xs else filter P ys)"
  by simp

lemma logged_append: "logged (xs @ ys) = logged xs @ logged ys"
  by (induction xs rule: logged.induct) simp_all

lemma logged_if: "logged (if c then xs else ys) = (if c then logged xs else logged ys)"
  by simp

subsection \<open>One trial, case by case\<close>

lemma oneProcedure_timeout:
  assumes rng: "0 < (tD1max self - tD1min self + 9) div 10"
      and tgt: "visTarget self (tloc cond @ tdir cond @ flank cond) = Some target"
      and key: "keyScript w (keyPos w) = None"
  shows "\<exists>es. oneProcedure self cond short w =
           (Inr (Some (trial_record self cond short w None)),
            adv (if short then 9 else 10) 1 1 es w) \<and>
          filter is_timing es = trial_timing self short False w \<and> logged es = []"
proof -
  have "\<exists>es. oneProcedure self cond short (adv 0 0 0 [] w) =
           (Inr (Some (trial_record self cond short w None)),
            adv (if short then 9 else 10) 1 1 es w) \<and>
          filter is_timing es = trial_timing self short False w \<and> logged es = []"
  proof (cases short)
    case True
    show ?thesis
      unfolding oneProcedure_def trial_record_def
      apply (simp add: adv_steps randrange_adv [OF rng] tgt key True Let_def eval_nat_numeral
          split del: if_split)
      apply (rule exI, rule conjI, rule refl)
      apply (simp add: trial_timing_def window_timing_def drawn_wait_def True Let_def eval_nat_numeral filter_if
          logged_append logged_if cong del: if_weak_cong split del: if_split)
      done
  next
    case False
    show ?thesis
      unfolding oneProcedure_def trial_record_def
      apply (simp add: adv_steps randrange_adv [OF rng] tgt key False Let_def eval_nat_numeral
          split del: if_split)
      apply (rule exI, rule conjI, rule refl)
      apply (simp add: trial_timing_def window_timing_def drawn_wait_def False Let_def eval_nat_numeral filter_if
          logged_append logged_if cong del: if_weak_cong split del: if_split)
      done
  qed
  then show ?thesis by (simp only: adv_0)
qed

lemma oneProcedure_escape:
  assumes rng: "0 < (tD1max self - tD1min self + 9) div 10"
      and tgt: "visTarget self (tloc cond @ tdir cond @ flank cond) = Some target"
      and key: "keyScript w (keyPos w) = Some ((k, stamp) # others)"
      and esc: "k = ''escape''"
  shows "\<exists>es. oneProcedure self cond short w =
           (Inr None,
            adv (if short then 9 else 10) 1 1 es w) \<and>
          filter is_timing es = trial_timing self short False w \<and> logged es = []"
proof -
  have "\<exists>es. oneProcedure self cond short (adv 0 0 0 [] w) =
           (Inr None,
            adv (if short then 9 else 10) 1 1 es w) \<and>
          filter is_timing es = trial_timing self short False w \<and> logged es = []"
  proof (cases short)
    case True
    show ?thesis
      unfolding oneProcedure_def trial_record_def
      apply (simp add: adv_steps randrange_adv [OF rng] tgt key esc True Let_def eval_nat_numeral
          split del: if_split)
      apply (rule exI, rule conjI, rule refl)
      apply (simp add: trial_timing_def window_timing_def drawn_wait_def True Let_def eval_nat_numeral filter_if
          logged_append logged_if cong del: if_weak_cong split del: if_split)
      done
  next
    case False
    show ?thesis
      unfolding oneProcedure_def trial_record_def
      apply (simp add: adv_steps randrange_adv [OF rng] tgt key esc False Let_def eval_nat_numeral
          split del: if_split)
      apply (rule exI, rule conjI, rule refl)
      apply (simp add: trial_timing_def window_timing_def drawn_wait_def False Let_def eval_nat_numeral filter_if
          logged_append logged_if cong del: if_weak_cong split del: if_split)
      done
  qed
  then show ?thesis by (simp only: adv_0)
qed

lemma oneProcedure_zero:
  assumes rng: "0 < (tD1max self - tD1min self + 9) div 10"
      and tgt: "visTarget self (tloc cond @ tdir cond @ flank cond) = Some target"
      and key: "keyScript w (keyPos w) = Some ((k, stamp) # others)"
      and zero: "k = ''0''"
  shows "\<exists>es. oneProcedure self cond short w =
           (Inl UnboundLocalError,
            adv (if short then 9 else 10) 1 1 es w) \<and>
          filter is_timing es = trial_timing self short True w \<and> logged es = []"
proof -
  have "\<exists>es. oneProcedure self cond short (adv 0 0 0 [] w) =
           (Inl UnboundLocalError,
            adv (if short then 9 else 10) 1 1 es w) \<and>
          filter is_timing es = trial_timing self short True w \<and> logged es = []"
  proof (cases short)
    case True
    show ?thesis
      unfolding oneProcedure_def trial_record_def
      apply (simp add: adv_steps randrange_adv [OF rng] tgt key zero True Let_def eval_nat_numeral
          split del: if_split)
      apply (rule exI, rule conjI, rule refl)
      apply (simp add: trial_timing_def window_timing_def drawn_wait_def True Let_def eval_nat_numeral filter_if
          logged_append logged_if cong del: if_weak_cong split del: if_split)
      done
  next
    case False
    show ?thesis
      unfolding oneProcedure_def trial_record_def
      apply (simp add: adv_steps randrange_adv [OF rng] tgt key zero False Let_def eval_nat_numeral
          split del: if_split)
      apply (rule exI, rule conjI, rule refl)
      apply (simp add: trial_timing_def window_timing_def drawn_wait_def False Let_def eval_nat_numeral filter_if
          logged_append logged_if cong del: if_weak_cong split del: if_split)
      done
  qed
  then show ?thesis by (simp only: adv_0)
qed

lemma oneProcedure_scored:
  assumes rng: "0 < (tD1max self - tD1min self + 9) div 10"
      and tgt: "visTarget self (tloc cond @ tdir cond @ flank cond) = Some target"
      and key: "keyScript w (keyPos w) = Some ((k, stamp) # others)"
      and nesc: "k \<noteq> ''escape''" and nzero: "k \<noteq> ''0''"
  shows "\<exists>es. oneProcedure self cond short w =
           (Inr (Some (trial_record self cond short w
              (Some (if k = tdir cond \<or>
                        (k \<in> set [''f'', ''a'', ''z'', ''q''] \<and> tdir cond = ''left'') \<or>
                        (k \<in> set [''j'', ''m'', ''l'', ''p''] \<and> tdir cond = ''right'')
                     then ''OK'' else ''NOK'')))),
            adv (if short then 9 else 10) 1 1 es w) \<and>
          filter is_timing es = trial_timing self short False w \<and> logged es = []"
proof -
  have "\<exists>es. oneProcedure self cond short (adv 0 0 0 [] w) =
           (Inr (Some (trial_record self cond short w
              (Some (if k = tdir cond \<or>
                        (k \<in> set [''f'', ''a'', ''z'', ''q''] \<and> tdir cond = ''left'') \<or>
                        (k \<in> set [''j'', ''m'', ''l'', ''p''] \<and> tdir cond = ''right'')
                     then ''OK'' else ''NOK'')))),
            adv (if short then 9 else 10) 1 1 es w) \<and>
          filter is_timing es = trial_timing self short False w \<and> logged es = []"
  proof (cases short)
    case True
    show ?thesis
      unfolding oneProcedure_def trial_record_def
      apply (simp add: adv_steps randrange_adv [OF rng] tgt key nesc nzero True Let_def eval_nat_numeral
          split del: if_split)
      apply (rule exI, rule conjI, rule refl)
      apply (simp add: trial_timing_def window_timing_def drawn_wait_def True Let_def eval_nat_numeral filter_if
          logged_append logged_if cong del: if_weak_cong split del: if_split)
      done
  next
    case False
    show ?thesis
      unfolding oneProcedure_def trial_record_def
      apply (simp add: adv_steps randrange_adv [OF rng] tgt key nesc nzero False Let_def eval_nat_numeral
          split del: if_split)
      apply (rule exI, rule conjI, rule refl)
      apply (simp add: trial_timing_def window_timing_def drawn_wait_def False Let_def eval_nat_numeral filter_if
          logged_append logged_if cong del: if_weak_cong split del: if_split)
      done
  qed
  then show ?thesis by (simp only: adv_0)
qed

lemma oneProcedure_nokeys:
  assumes rng: "0 < (tD1max self - tD1min self + 9) div 10"
      and tgt: "visTarget self (tloc cond @ tdir cond @ flank cond) = Some target"
      and key: "keyScript w (keyPos w) = Some []"
  shows "\<exists>es. oneProcedure self cond short w = (Inl IndexError, adv 7 1 1 es w) \<and>
          filter is_timing es = window_timing self w \<and> logged es = []"
proof -
  have "\<exists>es. oneProcedure self cond short (adv 0 0 0 [] w) = (Inl IndexError, adv 7 1 1 es w) \<and>
          filter is_timing es = window_timing self w \<and> logged es = []"
    unfolding oneProcedure_def
    apply (simp add: adv_steps randrange_adv [OF rng] tgt key Let_def eval_nat_numeral
        split del: if_split)
    apply (rule exI, rule conjI, rule refl)
    apply (simp add: window_timing_def drawn_wait_def Let_def eval_nat_numeral filter_if
        logged_append logged_if cong del: if_weak_cong split del: if_split)
    done
  then show ?thesis by (simp only: adv_0)
qed

lemma oneProcedure_notarget:
  assumes rng: "0 < (tD1max self - tD1min self + 9) div 10"
      and tgt: "visTarget self (tloc cond @ tdir cond @ flank cond) = None"
  shows "fst (oneProcedure self cond short w) = Inl KeyError"
proof -
  have "fst (oneProcedure self cond short (adv 0 0 0 [] w)) = Inl KeyError"
    unfolding oneProcedure_def
    by (simp add: adv_steps randrange_adv [OF rng] tgt Let_def split del: if_split)
  then show ?thesis by (simp only: adv_0)
qed

lemma oneProcedure_norange:
  assumes rng: "\<not> 0 < (tD1max self - tD1min self + 9) div 10"
  shows "fst (oneProcedure self cond short w) = Inl ValueError"
  unfolding oneProcedure_def
  by (simp add: draw_def flip_def emit_def getTime_def randrange_empty [OF rng] Let_def
      split del: if_split)

subsection \<open>What a returned record tells\<close>

lemma oneProcedure_SomeD:
  assumes run: "oneProcedure self cond short w = (Inr (Some res), w')"
  shows "\<exists>r es. res = trial_record self cond short w r \<and>
           w' = adv (if short then 9 else 10) 1 1 es w \<and>
           filter is_timing es = trial_timing self short False w \<and> logged es = [] \<and>
           0 < (tD1max self - tD1min self + 9) div 10 \<and>
           (case keyScript w (keyPos w) of
              None \<Rightarrow> r = None
            | Some [] \<Rightarrow> False
            | Some ((k, stamp) # others) \<Rightarrow>
                k \<noteq> ''escape'' \<and> k \<noteq> ''0'' \<and>
                r = Some (if k = tdir cond \<or>
                             (k \<in> set [''f'', ''a'', ''z'', ''q''] \<and> tdir cond = ''left'') \<or>
                             (k \<in> set [''j'', ''m'', ''l'', ''p''] \<and> tdir cond = ''right'')
                          then ''OK'' else ''NOK''))"
proof -
  have rng: "0 < (tD1max self - tD1min self + 9) div 10"
    using run oneProcedure_norange [of self cond short w] by (cases "0 < (tD1max self - tD1min self + 9) div 10") auto
  obtain target where tgt: "visTarget self (tloc cond @ tdir cond @ flank cond) = Some target"
    using run oneProcedure_notarget [OF rng, of cond short w]
    by (cases "visTarget self (tloc cond @ tdir cond @ flank cond)") auto
  show ?thesis
  proof (cases "keyScript w (keyPos w)")
    case None
    obtain es where e: "oneProcedure self cond short w =
        (Inr (Some (trial_record self cond short w None)), adv (if short then 9 else 10) 1 1 es w)"
        "filter is_timing es = trial_timing self short False w" "logged es = []"
      using oneProcedure_timeout [OF rng tgt None, of short] by blast
    from e(1) run have "res = trial_record self cond short w None"
        "w' = adv (if short then 9 else 10) 1 1 es w"
      by simp_all
    then show ?thesis
      using e(2,3) None rng by (intro exI [of _ None] exI [of _ es]) simp
  next
    case (Some ks)
    show ?thesis
    proof (cases ks)
      case Nil
      with Some oneProcedure_nokeys [OF rng tgt, of w short] run show ?thesis by auto
    next
      case (Cons p others)
      obtain k stamp where p: "p = (k, stamp)" by (cases p)
      have key: "keyScript w (keyPos w) = Some ((k, stamp) # others)"
        using Some Cons p by simp
      have nesc: "k \<noteq> ''escape''"
        using oneProcedure_escape [OF rng tgt key, of short] run by auto
      have nzero: "k \<noteq> ''0''"
        using oneProcedure_zero [OF rng tgt key, of short] run by auto
      let ?r = "Some (if k = tdir cond \<or>
                             (k \<in> set [''f'', ''a'', ''z'', ''q''] \<and> tdir cond = ''left'') \<or>
                             (k \<in> set [''j'', ''m'', ''l'', ''p''] \<and> tdir cond = ''right'')
                          then ''OK'' else ''NOK'')"
      obtain es where e: "oneProcedure self cond short w =
          (Inr (Some (trial_record self cond short w ?r)), adv (if short then 9 else 10) 1 1 es w)"
          "filter is_timing es = trial_timing self short False w" "logged es = []"
        using oneProcedure_scored [OF rng tgt key nesc nzero, of short] by blast
      from e(1) run have "res = trial_record self cond short w ?r"
          "w' = adv (if short then 9 else 10) 1 1 es w"
        by simp_all
      then show ?thesis
        using e(2,3) key rng nesc nzero by (intro exI [of _ ?r] exI [of _ es]) simp
    qed
  qed
qed

subsection \<open>The constructed experiment\<close>

lemma targetStim_visTarget [simp]:
  "targetStim (self\<lparr>visTarget := v\<rparr>) l d f = targetStim self l d f"
  by (simp add: targetStim_def)

lemma fill_visTarget_Inr:
  "fill_visTarget self ks = Inr self' \<Longrightarrow>
     \<exists>v. self' = self\<lparr>visTarget := v\<rparr> \<and>
         (\<forall>key. visTarget self key \<noteq> None \<longrightarrow> v key \<noteq> None) \<and>
         (\<forall>l d f. (l, d, f) \<in> set ks \<longrightarrow> v (l @ d @ f) \<noteq> None)"
proof (induction ks arbitrary: self)
  case Nil
  then show ?case by (intro exI [of _ "visTarget self"]) simp
next
  case (Cons key ks)
  obtain l d f where key: "key = (l, d, f)" by (cases key)
  from Cons.prems key obtain stim where
    rest: "fill_visTarget (self\<lparr>visTarget := (visTarget self)(l @ d @ f \<mapsto> stim)\<rparr>) ks = Inr self'"
    by (auto split: sum.splits)
  from Cons.IH [OF rest] obtain v where
    v: "self' = self\<lparr>visTarget := v\<rparr>"
       "\<forall>key. ((visTarget self)(l @ d @ f \<mapsto> stim)) key \<noteq> None \<longrightarrow> v key \<noteq> None"
       "\<forall>l d f. (l, d, f) \<in> set ks \<longrightarrow> v (l @ d @ f) \<noteq> None"
    by auto
  from v(2) have here: "v (l @ d @ f) \<noteq> None" by simp
  from v(2) have kept: "\<forall>key. visTarget self key \<noteq> None \<longrightarrow> v key \<noteq> None"
    by (metis fun_upd_apply option.distinct(1))
  show ?case
    using v(1,3) here kept key by (intro exI [of _ v]) auto
qed

lemma targetStim_ok:
  assumes "d = ''left'' \<or> d = ''right''"
      and "f = ''incongruent'' \<or> f = ''neutral'' \<or> f = ''congruent''"
  shows "\<exists>stim. targetStim self l d f = Inr stim"
  using assms by (auto simp: targetStim_def drawHead_def Let_def)

lemma fill_visTarget_ok:
  "(\<forall>l d f. (l, d, f) \<in> set ks \<longrightarrow> (\<exists>stim. targetStim self l d f = Inr stim)) \<Longrightarrow>
     \<exists>self'. fill_visTarget self ks = Inr self'"
proof (induction ks arbitrary: self)
  case Nil
  then show ?case by simp
next
  case (Cons key ks)
  obtain l d f where key: "key = (l, d, f)" by (cases key)
  from Cons.prems key obtain stim where stim: "targetStim self l d f = Inr stim"
    by (metis list.set_intros(1))
  have "\<exists>self'. fill_visTarget (self\<lparr>visTarget := (visTarget self)(l @ d @ f \<mapsto> stim)\<rparr>) ks = Inr self'"
    by (rule Cons.IH) (use Cons.prems in auto)
  with stim key show ?case by simp
qed

lemma init_ok:
  assumes "rate \<noteq> 0"
  shows "\<exists>self. ANTExp_init rate start dummy orig = Inr self"
  unfolding ANTExp_init_def using assms
  by (simp del: fill_visTarget.simps) (rule fill_visTarget_ok, auto intro!: targetStim_ok)

lemma init_fields:
  assumes "ANTExp_init rate start dummy orig = Inr self"
  shows "rate \<noteq> 0" "refreshRate self = rate" "frameTime self = 1 / rate" "startTime self = start"
    "runDummy self = dummy" "original self = orig"
    "tD1min self = 400" "tD1max self = 1600" "tOut self = 1700" "tDummy self = 700"
    "tExp self = 4000" "arrowSize self = 0.55" "arrowSep self = 0.06" "allWidthDeg self = 0.04"
    "targetDist self = 1.06" "procedures self = enumerate_procedures"
proof -
  from assms show "rate \<noteq> 0"
    by (auto simp: ANTExp_init_def split: if_splits)
  with assms obtain v where "self =
        \<lparr>refreshRate = rate, frameTime = 1 / rate, startTime = start,
         runDummy = dummy, original = orig,
         tD1min = 400, tD1max = 1600, tCue = 100, tNoCue = 400, tOut = 1700, tDummy = 700,
         tExp = 4000,
         arrowSize = 0.55, arrowSep = 0.06, cueSize = 0.35, allWidthDeg = 0.04,
         targetDist = 1.06,
         procedures = enumerate_procedures,
         visTarget = Map.empty\<rparr>\<lparr>visTarget := v\<rparr>"
    unfolding ANTExp_init_def by (auto simp del: fill_visTarget.simps dest: fill_visTarget_Inr)
  then show "refreshRate self = rate" "frameTime self = 1 / rate" "startTime self = start"
    "runDummy self = dummy" "original self = orig"
    "tD1min self = 400" "tD1max self = 1600" "tOut self = 1700" "tDummy self = 700"
    "tExp self = 4000" "arrowSize self = 0.55" "arrowSep self = 0.06" "allWidthDeg self = 0.04"
    "targetDist self = 1.06" "procedures self = enumerate_procedures"
    by simp_all
qed

lemma enumerate_tags:
  assumes "cond \<in> set enumerate_procedures"
  shows "tloc cond = ''top'' \<or> tloc cond = ''bottom''"
    and "tdir cond = ''left'' \<or> tdir cond = ''right''"
    and "flank cond = ''incongruent'' \<or> flank cond = ''neutral'' \<or> flank cond = ''congruent''"
    and "cue cond = ''no'' \<or> cue cond = ''spatial'' \<or> cue cond = ''center'' \<or> cue cond = ''double''"
  using assms unfolding enumerate_procedures_def by auto

lemma length_enumerate: "length enumerate_procedures = 48"
  by (simp add: enumerate_procedures_def)

lemma init_target:
  assumes init: "ANTExp_init rate start dummy orig = Inr self"
      and cond: "cond \<in> set (procedures self)"
  shows "\<exists>target. visTarget self (tloc cond @ tdir cond @ flank cond) = Some target"
proof -
  from init_fields(1) [OF init] init obtain v where
    v: "visTarget self = v" and
    keys: "\<forall>l d f. (l, d, f) \<in> set (concat (map (\<lambda>l. concat (map (\<lambda>d. map (\<lambda>f. (l, d, f))
           [''incongruent'', ''neutral'', ''congruent''])
           [''left'', ''right''])) [''top'', ''bottom''])) \<longrightarrow> v (l @ d @ f) \<noteq> None"
    unfolding ANTExp_init_def
    by (auto simp del: fill_visTarget.simps dest!: fill_visTarget_Inr)
  from cond init_fields(16) [OF init] have c: "cond \<in> set enumerate_procedures" by simp
  have "(tloc cond, tdir cond, flank cond) \<in> set (concat (map (\<lambda>l. concat (map (\<lambda>d. map (\<lambda>f. (l, d, f))
           [''incongruent'', ''neutral'', ''congruent''])
           [''left'', ''right''])) [''top'', ''bottom'']))"
    using enumerate_tags(1,2,3) [OF c] by auto
  with keys v show ?thesis by auto
qed

lemma init_range:
  assumes "ANTExp_init rate start dummy orig = Inr self"
  shows "0 < (tD1max self - tD1min self + 9) div 10"
  using init_fields(7,8) [OF assms] by simp

subsection \<open>The calls of a trial, whatever its outcome\<close>

lemma key_waits_timing: "key_waits (filter is_timing cs) = key_waits cs"
  by (induction cs rule: key_waits.induct) simp_all

lemma key_waits_append: "key_waits (xs @ ys) = key_waits xs @ key_waits ys"
  by (induction xs rule: key_waits.induct) simp_all

lemma key_waits_trial:
  "filter is_timing es = trial_timing self short z w \<Longrightarrow>
     key_waits es =
       [real_of_int (if runDummy self then tDummy self else tOut self) / 1000 - frameTime self]"
proof -
  assume "filter is_timing es = trial_timing self short z w"
  then have "key_waits (filter is_timing es) = key_waits (trial_timing self short z w)"
    by simp
  then show ?thesis
    by (simp add: key_waits_timing trial_timing_def window_timing_def Let_def key_waits_append)
qed

lemma key_waits_window:
  "filter is_timing es = window_timing self w \<Longrightarrow>
     key_waits es =
       [real_of_int (if runDummy self then tDummy self else tOut self) / 1000 - frameTime self]"
proof -
  assume "filter is_timing es = window_timing self w"
  then have "key_waits (filter is_timing es) = key_waits (window_timing self w)"
    by simp
  then show ?thesis
    by (simp add: key_waits_timing window_timing_def Let_def)
qed

lemma oneProcedure_world:
  assumes rng: "0 < (tD1max self - tD1min self + 9) div 10"
      and tgt: "visTarget self (tloc cond @ tdir cond @ flank cond) = Some target"
  shows "\<exists>n es. snd (oneProcedure self cond short w) = adv n 1 1 es w \<and> logged es = [] \<and>
           key_waits es =
             [real_of_int (if runDummy self then tDummy self else tOut self) / 1000 - frameTime self]"
proof -
  have full: "\<exists>n es. snd (oneProcedure self cond short w) = adv n 1 1 es w \<and> logged es = [] \<and>
           key_waits es =
             [real_of_int (if runDummy self then tDummy self else tOut self) / 1000 - frameTime self]"
    if "\<exists>es. oneProcedure self cond short w = (r, adv (if short then 9 else 10) 1 1 es w) \<and>
          filter is_timing es = trial_timing self short z w \<and> logged es = []" for r z
  proof -
    from that obtain es where
      e: "oneProcedure self cond short w = (r, adv (if short then 9 else 10) 1 1 es w)"
         "filter is_timing es = trial_timing self short z w" "logged es = []"
      by blast
    from e(1) have "snd (oneProcedure self cond short w) = adv (if short then 9 else 10) 1 1 es w"
      by simp
    with e(3) key_waits_trial [OF e(2)] show ?thesis by blast
  qed
  show ?thesis
  proof (cases "keyScript w (keyPos w)")
    case None
    from oneProcedure_timeout [OF rng tgt None, of short] show ?thesis by (rule full)
  next
    case (Some ks)
    show ?thesis
    proof (cases ks)
      case Nil
      with Some oneProcedure_nokeys [OF rng tgt, of w short] obtain es where
        e: "oneProcedure self cond short w = (Inl IndexError, adv 7 1 1 es w)"
           "filter is_timing es = window_timing self w" "logged es = []"
        by blast
      from e(1) have "snd (oneProcedure self cond short w) = adv 7 1 1 es w"
        by simp
      with e(3) key_waits_window [OF e(2)] show ?thesis by blast
    next
      case (Cons p others)
      obtain k stamp where p: "p = (k, stamp)" by (cases p)
      have key: "keyScript w (keyPos w) = Some ((k, stamp) # others)"
        using Some Cons p by simp
      consider "k = ''escape''" | "k = ''0''" | "k \<noteq> ''escape''" "k \<noteq> ''0''" by blast
      then show ?thesis
      proof cases
        case 1
        from oneProcedure_escape [OF rng tgt key 1, of short] show ?thesis by (rule full)
      next
        case 2
        from oneProcedure_zero [OF rng tgt key 2, of short] show ?thesis by (rule full)
      next
        case 3
        from oneProcedure_scored [OF rng tgt key 3, of short] show ?thesis by (rule full)
      qed
    qed
  qed
qed

lemma keywait_request:
  assumes init: "ANTExp_init rate start dummy orig = Inr self"
      and cond: "cond \<in> set (procedures self)"
  shows "key_waits (trace (snd (oneProcedure self cond short w))) =
           key_waits (trace w) @ [(if dummy then 0.7 else 1.7) - 1 / rate]"
proof -
  from init_target [OF init cond] obtain target where
    tgt: "visTarget self (tloc cond @ tdir cond @ flank cond) = Some target" ..
  from oneProcedure_world [OF init_range [OF init] tgt, of short w] obtain n es where
    w': "snd (oneProcedure self cond short w) = adv n 1 1 es w" and
    es: "key_waits es =
      [real_of_int (if runDummy self then tDummy self else tOut self) / 1000 - frameTime self]"
    by blast
  show ?thesis
    by (simp add: w' es key_waits_append init_fields [OF init])
qed


subsection \<open>Sampling without replacement\<close>

lemma mset_pool_step:
  assumes "j < length pool"
  shows "add_mset (pool ! j) (mset (butlast (pool[j := last pool]))) = mset pool"
proof (cases pool rule: rev_cases)
  case Nil
  with assms show ?thesis by simp
next
  case (snoc xs l)
  show ?thesis
  proof (cases "j = length xs")
    case True
    with snoc show ?thesis by simp
  next
    case False
    with assms snoc have j: "j < length xs" by simp
    then have "pool[j := last pool] = xs[j := l] @ [l]"
      using snoc by (simp add: list_update_append)
    then have "butlast (pool[j := last pool]) = xs[j := l]" by simp
    moreover have "pool ! j = xs ! j"
      using snoc j by (simp add: nth_append)
    moreover have "add_mset (xs ! j) (mset (xs[j := l])) = add_mset l (mset xs)"
      using j by (simp add: mset_update)
    ultimately show ?thesis using snoc by simp
  qed
qed

lemma sample_pool_mset:
  "length pool = k \<Longrightarrow> mset (fst (sample_pool k pool w)) = mset pool"
proof (induction k arbitrary: pool w)
  case 0
  then show ?case by simp
next
  case (Suc k)
  let ?j = "rndScript w (rndPos w) mod length pool"
  have j: "?j < length pool" using Suc.prems by simp
  have len: "length (butlast (pool[?j := last pool])) = k"
    using Suc.prems by simp
  show ?case
    using Suc.IH [OF len] mset_pool_step [OF j]
    by (simp add: random_below_def split_def Let_def)
qed

lemma sample_pool_world: "snd (sample_pool k pool (adv a b c es w)) = adv a b (c + k) es w"
  by (induction k arbitrary: pool c) (simp_all add: random_below_adv split_def Let_def)

lemma sample_pool_seed:
  fixes pool :: "'a list"
  shows "rndScript w1 = rndScript w2 \<Longrightarrow> rndPos w1 = rndPos w2 \<Longrightarrow>
     fst (sample_pool k pool w1) = fst (sample_pool k pool w2)"
proof (induction k arbitrary: pool w1 w2)
  case 0
  then show ?case by simp
next
  case (Suc k)
  have "fst (sample_pool k p (w1\<lparr>rndPos := Suc (rndPos w1)\<rparr>)) =
        fst (sample_pool k p (w2\<lparr>rndPos := Suc (rndPos w2)\<rparr>))" for p :: "'a list"
    by (rule Suc.IH) (simp_all add: Suc.prems)
  then show ?case
    by (simp add: random_below_def split_def Let_def Suc.prems)
qed

lemma sample_all:
  "sample xs (length xs) w = (Inr (fst (sample_pool (length xs) xs w)), adv 0 0 (length xs) [] w)"
proof -
  have "snd (sample_pool (length xs) xs (adv 0 0 0 [] w)) = adv 0 0 (0 + length xs) [] w"
    by (rule sample_pool_world)
  then show ?thesis
    by (simp add: sample_def split_def Let_def adv_0)
qed

subsection \<open>One pass of the loop\<close>

lemma fullLoop_step:
  assumes i: "i < length (procedures self)"
      and c: "cue (procedures self ! i) = ''no'' \<or> cue (procedures self ! i) = ''spatial'' \<or>
              cue (procedures self ! i) = ''center'' \<or> cue (procedures self ! i) = ''double''"
      and f: "flank (procedures self ! i) = ''incongruent'' \<or> flank (procedures self ! i) = ''neutral'' \<or>
              flank (procedures self ! i) = ''congruent''"
      and run: "oneProcedure self (procedures self ! i) False w = (Inr (Some res), w1)"
  shows "fullLoop self (i # rest) maxrun wty cgr E w =
     (case maxrun of
        None \<Rightarrow> fullLoop self rest None (Some (warning_code (cue (procedures self ! i))))
                  (Some (congruency_code (flank (procedures self ! i))))
                  (E[i := table_row self i res]) (emit (LogLine res) w1)
      | Some m \<Rightarrow>
          if m - 1 = 0
          then (Inr (Some (filter (\<lambda>row. row ! 10 = 1) (E[i := table_row self i res]))),
                emit (LogLine res) w1)
          else fullLoop self rest (Some (m - 1)) (Some (warning_code (cue (procedures self ! i))))
                  (Some (congruency_code (flank (procedures self ! i))))
                  (E[i := table_row self i res]) (emit (LogLine res) w1))"
  using i c f run
  by (auto simp: Let_def table_row_def warning_code_def congruency_code_def split: option.splits)

lemma fullLoop_stop:
  assumes "i < length (procedures self)"
      and "oneProcedure self (procedures self ! i) False w = (r, w1)"
      and "\<forall>res. r \<noteq> Inr (Some res)"
  shows "fullLoop self (i # rest) maxrun wty cgr E w =
           ((case r of Inl e \<Rightarrow> Inl e | Inr x \<Rightarrow> Inr None), w1)"
  using assms by (auto split: sum.splits option.splits)

declare fullLoop.simps(2) [simp del]

lemma consumed_Cons:
  "consumed maxrun (i # rest) =
     i # (case maxrun of None \<Rightarrow> consumed None rest
          | Some m \<Rightarrow> if m - 1 = 0 then [] else consumed (Some (m - 1)) rest)"
proof (cases maxrun)
  case None
  then show ?thesis by (simp add: consumed_def)
next
  case (Some m)
  consider "m \<le> 0" | "m = 1" | "2 \<le> m" by linarith
  then show ?thesis
  proof cases
    case 1
    with Some show ?thesis by (simp add: consumed_def)
  next
    case 2
    with Some show ?thesis by (simp add: consumed_def)
  next
    case 3
    then have "nat m = Suc (nat (m - 1))" by simp
    with 3 Some show ?thesis by (simp add: consumed_def)
  qed
qed

lemma init_tags:
  assumes init: "ANTExp_init rate start dummy orig = Inr self"
      and i: "i < length (procedures self)"
  shows "cue (procedures self ! i) = ''no'' \<or> cue (procedures self ! i) = ''spatial'' \<or>
         cue (procedures self ! i) = ''center'' \<or> cue (procedures self ! i) = ''double''"
    and "flank (procedures self ! i) = ''incongruent'' \<or> flank (procedures self ! i) = ''neutral'' \<or>
         flank (procedures self ! i) = ''congruent''"
proof -
  from i have "procedures self ! i \<in> set enumerate_procedures"
    using init_fields(16) [OF init] by (metis nth_mem)
  from enumerate_tags(4) [OF this] enumerate_tags(3) [OF this]
  show "cue (procedures self ! i) = ''no'' \<or> cue (procedures self ! i) = ''spatial'' \<or>
         cue (procedures self ! i) = ''center'' \<or> cue (procedures self ! i) = ''double''"
    and "flank (procedures self ! i) = ''incongruent'' \<or> flank (procedures self ! i) = ''neutral'' \<or>
         flank (procedures self ! i) = ''congruent''"
    by simp_all
qed

lemma trial_done:
  assumes "oneProcedure self cond False w = (Inr (Some res), w1)"
  shows "\<exists>es. w1 = adv 10 1 1 es w \<and> logged es = [] \<and> condition res = cond"
proof -
  from oneProcedure_SomeD [OF assms] obtain r es where
    "res = trial_record self cond False w r" "w1 = adv 10 1 1 es w" "logged es = []"
    by auto
  then show ?thesis by (auto simp: trial_record_def)
qed

subsection \<open>What a finished block returns and logs\<close>

lemma fullLoop_Some:
  assumes init: "ANTExp_init rate start dummy orig = Inr self"
  shows "\<forall>i \<in> set order. i < length (procedures self) \<Longrightarrow>
     fullLoop self order maxrun wty cgr E w = (Inr (Some table), w') \<Longrightarrow>
     \<exists>rs. logged (trace w') = logged (trace w) @ rs \<and>
          map condition rs = map ((!) (procedures self)) (consumed maxrun order) \<and>
          table = filter (\<lambda>row. row ! 10 = 1)
                    (fold (\<lambda>(i, r) E. E[i := table_row self i r]) (zip (consumed maxrun order) rs) E)"
proof (induction order arbitrary: maxrun wty cgr E w)
  case Nil
  then show ?case
    by (intro exI [of _ "[]"]) (auto simp: consumed_def split: option.splits)
next
  case (Cons i rest)
  from Cons.prems(1) have i: "i < length (procedures self)" and
    rest: "\<forall>i \<in> set rest. i < length (procedures self)" by simp_all
  obtain r w1 where run: "oneProcedure self (procedures self ! i) False w = (r, w1)"
    by (cases "oneProcedure self (procedures self ! i) False w")
  have "\<exists>res. r = Inr (Some res)"
  proof (rule ccontr)
    assume "\<not> (\<exists>res. r = Inr (Some res))"
    then have "\<forall>res. r \<noteq> Inr (Some res)" by simp
    from fullLoop_stop [OF i run this] Cons.prems(2) show False
      by (auto split: sum.splits)
  qed
  then obtain res where r: "r = Inr (Some res)" ..
  from trial_done [OF run [unfolded r]] obtain es where
    w1: "w1 = adv 10 1 1 es w" and es: "logged es = []" and
    cond: "condition res = procedures self ! i"
    by blast
  let ?w2 = "emit (LogLine res) w1"
  let ?E = "E[i := table_row self i res]"
  have log2: "logged (trace ?w2) = logged (trace w) @ [res]"
    by (simp add: w1 emit_adv logged_append es)
  note step = fullLoop_step [OF i init_tags [OF init i] run [unfolded r], of rest maxrun wty cgr E]
  show ?case
  proof (cases maxrun)
    case None
    from step None Cons.prems(2) have
      "fullLoop self rest None (Some (warning_code (cue (procedures self ! i))))
         (Some (congruency_code (flank (procedures self ! i)))) ?E ?w2 = (Inr (Some table), w')"
      by simp
    from Cons.IH [OF rest this] obtain rs where
      rs: "logged (trace w') = logged (trace ?w2) @ rs"
          "map condition rs = map ((!) (procedures self)) (consumed None rest)"
          "table = filter (\<lambda>row. row ! 10 = 1)
             (fold (\<lambda>(i, r) E. E[i := table_row self i r]) (zip (consumed None rest) rs) ?E)"
      by blast
    show ?thesis
      using rs log2 cond None
      by (intro exI [of _ "res # rs"]) (simp add: consumed_Cons)
  next
    case (Some m)
    show ?thesis
    proof (cases "m - 1 = 0")
      case True
      from step Some True Cons.prems(2) have
        "table = filter (\<lambda>row. row ! 10 = 1) ?E" "w' = ?w2"
        by simp_all
      then show ?thesis
        using log2 cond Some True
        by (intro exI [of _ "[res]"]) (simp add: consumed_Cons)
    next
      case False
      from step Some False Cons.prems(2) have
        "fullLoop self rest (Some (m - 1)) (Some (warning_code (cue (procedures self ! i))))
           (Some (congruency_code (flank (procedures self ! i)))) ?E ?w2 = (Inr (Some table), w')"
        by simp
      from Cons.IH [OF rest this] obtain rs where
        rs: "logged (trace w') = logged (trace ?w2) @ rs"
            "map condition rs = map ((!) (procedures self)) (consumed (Some (m - 1)) rest)"
            "table = filter (\<lambda>row. row ! 10 = 1)
               (fold (\<lambda>(i, r) E. E[i := table_row self i r]) (zip (consumed (Some (m - 1)) rest) rs) ?E)"
        by blast
      show ?thesis
        using rs log2 cond Some False
        by (intro exI [of _ "res # rs"]) (simp add: consumed_Cons)
    qed
  qed
qed

lemma fullLoop_abort:
  assumes "i < length (procedures self)"
      and "oneProcedure self (procedures self ! i) False w = (Inr None, w')"
  shows "fullLoop self (i # rest) maxrun wty cgr E w = (Inr None, w')"
  using fullLoop_stop [OF assms] by simp

subsection \<open>Blocks driven by the keys\<close>

lemma trial_answered:
  assumes init: "ANTExp_init rate start dummy orig = Inr self"
      and i: "i < length (procedures self)"
      and ans: "answered (keyScript w (keyPos w))"
  shows "\<exists>res es. oneProcedure self (procedures self ! i) False w = (Inr (Some res), adv 10 1 1 es w) \<and>
           logged es = []"
proof -
  from i have "procedures self ! i \<in> set (procedures self)" by simp
  from init_target [OF init this] obtain target where
    tgt: "visTarget self (tloc (procedures self ! i) @ tdir (procedures self ! i) @
            flank (procedures self ! i)) = Some target" ..
  note rng = init_range [OF init]
  show ?thesis
  proof (cases "keyScript w (keyPos w)")
    case None
    from oneProcedure_timeout [OF rng tgt None, of False] show ?thesis by auto
  next
    case (Some ks)
    with ans obtain k stamp others where
      key: "keyScript w (keyPos w) = Some ((k, stamp) # others)" and
      k: "k \<noteq> ''escape''" "k \<noteq> ''0''"
      by (cases ks) (auto simp: answered_def)
    from oneProcedure_scored [OF rng tgt key k, of False] show ?thesis by auto
  qed
qed

lemma trial_escape:
  assumes init: "ANTExp_init rate start dummy orig = Inr self"
      and i: "i < length (procedures self)"
      and key: "keyScript w (keyPos w) = Some ((''escape'', stamp) # others)"
  shows "\<exists>es. oneProcedure self (procedures self ! i) False w = (Inr None, adv 10 1 1 es w) \<and>
           logged es = []"
proof -
  from i have "procedures self ! i \<in> set (procedures self)" by simp
  from init_target [OF init this] obtain target where
    tgt: "visTarget self (tloc (procedures self ! i) @ tdir (procedures self ! i) @
            flank (procedures self ! i)) = Some target" ..
  from oneProcedure_escape [OF init_range [OF init] tgt key refl, of False] show ?thesis by auto
qed

lemma fullLoop_answered:
  assumes init: "ANTExp_init rate start dummy orig = Inr self"
  shows "\<forall>i \<in> set order. i < length (procedures self) \<Longrightarrow>
     \<forall>n < length (consumed maxrun order). answered (keyScript w (keyPos w + n)) \<Longrightarrow>
     \<exists>table w'. fullLoop self order maxrun wty cgr E w = (Inr (Some table), w')"
proof (induction order arbitrary: maxrun wty cgr E w)
  case Nil
  then show ?case by simp
next
  case (Cons i rest)
  from Cons.prems(1) have i: "i < length (procedures self)" and
    rest: "\<forall>i \<in> set rest. i < length (procedures self)" by simp_all
  have "0 < length (consumed maxrun (i # rest))"
    by (simp add: consumed_Cons)
  with Cons.prems(2) have "answered (keyScript w (keyPos w + 0))"
    by blast
  then have "answered (keyScript w (keyPos w))" by simp
  from trial_answered [OF init i this] obtain res es where
    run: "oneProcedure self (procedures self ! i) False w = (Inr (Some res), adv 10 1 1 es w)"
    by blast
  let ?w2 = "emit (LogLine res) (adv 10 1 1 es w)"
  let ?E = "E[i := table_row self i res]"
  have keys: "keyScript ?w2 (keyPos ?w2 + n) = keyScript w (keyPos w + Suc n)" for n
    by (simp add: emit_adv)
  note step = fullLoop_step [OF i init_tags [OF init i] run, of rest maxrun wty cgr E]
  show ?case
  proof (cases maxrun)
    case None
    have "\<forall>n < length (consumed None rest). answered (keyScript ?w2 (keyPos ?w2 + n))"
      using Cons.prems(2) None unfolding keys by (auto simp: consumed_Cons)
    from Cons.IH [OF rest this] step None show ?thesis by simp
  next
    case (Some m)
    show ?thesis
    proof (cases "m - 1 = 0")
      case True
      with step Some show ?thesis by simp
    next
      case False
      have "\<forall>n < length (consumed (Some (m - 1)) rest). answered (keyScript ?w2 (keyPos ?w2 + n))"
        using Cons.prems(2) Some False unfolding keys by (auto simp: consumed_Cons)
      from Cons.IH [OF rest this] step Some False show ?thesis by simp
    qed
  qed
qed

lemma fullLoop_escape:
  assumes init: "ANTExp_init rate start dummy orig = Inr self"
  shows "\<forall>i \<in> set order. i < length (procedures self) \<Longrightarrow>
     j < length (consumed maxrun order) \<Longrightarrow>
     \<forall>n < j. answered (keyScript w (keyPos w + n)) \<Longrightarrow>
     keyScript w (keyPos w + j) = Some ((''escape'', stamp) # others) \<Longrightarrow>
     \<exists>w'. fullLoop self order maxrun wty cgr E w = (Inr None, w') \<and>
          length (logged (trace w')) = length (logged (trace w)) + j"
proof (induction order arbitrary: j maxrun wty cgr E w)
  case Nil
  then show ?case by (simp add: consumed_def split: option.splits if_splits)
next
  case (Cons i rest)
  from Cons.prems(1) have i: "i < length (procedures self)" and
    rest: "\<forall>i \<in> set rest. i < length (procedures self)" by simp_all
  show ?case
  proof (cases j)
    case 0
    with Cons.prems(4) have "keyScript w (keyPos w) = Some ((''escape'', stamp) # others)"
      by simp
    from trial_escape [OF init i this] obtain es where
      run: "oneProcedure self (procedures self ! i) False w = (Inr None, adv 10 1 1 es w)" and
      es: "logged es = []"
      by blast
    from fullLoop_abort [OF i run] 0 es show ?thesis
      by (simp add: logged_append)
  next
    case (Suc j')
    with Cons.prems(3) have "answered (keyScript w (keyPos w + 0))" by blast
    then have "answered (keyScript w (keyPos w))" by simp
    from trial_answered [OF init i this] obtain res es where
      run: "oneProcedure self (procedures self ! i) False w = (Inr (Some res), adv 10 1 1 es w)" and
      es: "logged es = []"
      by blast
    let ?w2 = "emit (LogLine res) (adv 10 1 1 es w)"
    let ?E = "E[i := table_row self i res]"
    have keys: "keyScript ?w2 (keyPos ?w2 + n) = keyScript w (keyPos w + Suc n)" for n
      by (simp add: emit_adv)
    have log2: "length (logged (trace ?w2)) = length (logged (trace w)) + 1"
      by (simp add: emit_adv logged_append es)
    have ans': "\<forall>n < j'. answered (keyScript ?w2 (keyPos ?w2 + n))"
      using Cons.prems(3) Suc unfolding keys by auto
    have esc': "keyScript ?w2 (keyPos ?w2 + j') = Some ((''escape'', stamp) # others)"
      using Cons.prems(4) Suc unfolding keys by simp
    note step = fullLoop_step [OF i init_tags [OF init i] run, of rest maxrun wty cgr E]
    show ?thesis
    proof (cases maxrun)
      case None
      have "j' < length (consumed None rest)"
        using Cons.prems(2) Suc None by (simp add: consumed_Cons)
      from Cons.IH [OF rest this ans' esc'] step None log2 Suc show ?thesis by simp
    next
      case (Some m)
      have m: "m - 1 \<noteq> 0"
        using Cons.prems(2) Suc Some by (auto simp: consumed_Cons split: if_splits)
      then have "j' < length (consumed (Some (m - 1)) rest)"
        using Cons.prems(2) Suc Some by (simp add: consumed_Cons)
      from Cons.IH [OF rest this ans' esc'] step Some m log2 Suc show ?thesis by simp
    qed
  qed
qed

subsection \<open>The whole block\<close>

lemma fullExperiment_eq:
  assumes init: "ANTExp_init rate start dummy orig = Inr self"
  shows "fullExperiment self maxrun w =
           fullLoop self (fst (sample_pool 48 [0..<48] w)) maxrun None None
             (replicate 48 (replicate 11 0)) (adv 0 0 48 [] w)"
proof -
  have len: "length (procedures self) = 48"
    by (simp add: init_fields(16) [OF init] length_enumerate)
  have "sample [0..<48] (length [0..<48]) w =
      (Inr (fst (sample_pool (length [0..<48]) [0..<48] w)), adv 0 0 (length [0..<48]) [] w)"
    by (rule sample_all)
  then have "sample [0..<48] 48 w = (Inr (fst (sample_pool 48 [0..<48] w)), adv 0 0 48 [] w)"
    by simp
  then show ?thesis
    by (simp add: fullExperiment_def len Let_def)
qed

lemma block_order:
  "mset (fst (sample_pool 48 [0..<48] w)) = mset [0..<48]"
  "length (fst (sample_pool 48 [0..<48] w)) = 48"
  "distinct (fst (sample_pool 48 [0..<48] w))"
  "set (fst (sample_pool 48 [0..<48] w)) = {0..<48}"
proof -
  show m: "mset (fst (sample_pool 48 [0..<48] w)) = mset [0..<48]"
    by (rule sample_pool_mset) simp
  from m have "size (mset (fst (sample_pool 48 [0..<48] w))) = size (mset [0..<48])"
    by simp
  then show "length (fst (sample_pool 48 [0..<48] w)) = 48" by simp
  from m have "distinct (fst (sample_pool 48 [0..<48] w)) = distinct [0..<48]"
    by (rule mset_eq_imp_distinct_iff)
  then show "distinct (fst (sample_pool 48 [0..<48] w))" by simp
  from m have "set (fst (sample_pool 48 [0..<48] w)) = set [0..<48]"
    by (rule mset_eq_setD)
  then show "set (fst (sample_pool 48 [0..<48] w)) = {0..<48}" by simp
qed

lemma fold_rows:
  "distinct order \<Longrightarrow> length rs = length order \<Longrightarrow> \<forall>i \<in> set order. i < length E \<Longrightarrow>
     length (fold (\<lambda>(i, r) E. E[i := table_row self i r]) (zip order rs) E) = length E \<and>
     (\<forall>k < length order.
        fold (\<lambda>(i, r) E. E[i := table_row self i r]) (zip order rs) E ! (order ! k) =
          table_row self (order ! k) (rs ! k)) \<and>
     (\<forall>i. i \<notin> set order \<longrightarrow>
        fold (\<lambda>(i, r) E. E[i := table_row self i r]) (zip order rs) E ! i = E ! i)"
proof (induction order arbitrary: rs E)
  case Nil
  then show ?case by simp
next
  case (Cons i rest)
  from Cons.prems(2) obtain r rs' where rs: "rs = r # rs'" "length rs' = length rest"
    by (cases rs) auto
  let ?E = "E[i := table_row self i r]"
  let ?F = "fold (\<lambda>(i, r) E. E[i := table_row self i r]) (zip rest rs') ?E"
  from Cons.prems have d: "distinct rest" "i \<notin> set rest" and
    b: "\<forall>i \<in> set rest. i < length ?E" and i: "i < length E"
    by simp_all
  from Cons.IH [OF d(1) rs(2) b] have
    IH: "length ?F = length E"
        "\<forall>k < length rest. ?F ! (rest ! k) = table_row self (rest ! k) (rs' ! k)"
        "\<forall>j. j \<notin> set rest \<longrightarrow> ?F ! j = ?E ! j"
    by simp_all
  have "?F ! i = table_row self i r"
    using IH(3) d(2) i by simp
  then have nth: "\<forall>k < length (i # rest). ?F ! ((i # rest) ! k) = table_row self ((i # rest) ! k) ((r # rs') ! k)"
    using IH(2) by (auto simp: nth_Cons split: nat.splits)
  have "\<forall>j. j \<notin> set (i # rest) \<longrightarrow> ?F ! j = E ! j"
    using IH(3) by auto
  with nth IH(1) show ?case by (simp add: rs)
qed

lemma block_abort:
  assumes init: "ANTExp_init rate start dummy orig = Inr self"
      and j: "j < 48"
      and cap: "case maxrun of None \<Rightarrow> True | Some m \<Rightarrow> m \<le> 0 \<or> int j < m"
      and ans: "\<forall>n < j. answered (keyScript w (keyPos w + n))"
      and esc: "keyScript w (keyPos w + j) = Some ((''escape'', stamp) # others)"
  shows "\<exists>w'. fullExperiment self maxrun w = (Inr None, w') \<and>
           length (logged (trace w')) = length (logged (trace w)) + j"
proof -
  let ?order = "fst (sample_pool 48 [0..<48] w)"
  let ?w = "adv 0 0 48 [] w"
  have len: "length (procedures self) = 48"
    by (simp add: init_fields(16) [OF init] length_enumerate)
  have idx: "\<forall>i \<in> set ?order. i < length (procedures self)"
    by (simp add: block_order(4) len)
  have j': "j < length (consumed maxrun ?order)"
    using j cap by (auto simp: consumed_def block_order(2) split: option.splits)
  have ans': "\<forall>n < j. answered (keyScript ?w (keyPos ?w + n))"
    using ans by simp
  have esc': "keyScript ?w (keyPos ?w + j) = Some ((''escape'', stamp) # others)"
    using esc by simp
  from fullLoop_escape [OF init idx j' ans' esc', of None None "replicate 48 (replicate 11 0)"]
  show ?thesis
    by (simp add: fullExperiment_eq [OF init])
qed

lemma block_completes:
  assumes init: "ANTExp_init rate start dummy orig = Inr self"
      and ans: "\<forall>n. answered (keyScript w n)"
  shows "\<exists>table w'. fullExperiment self maxrun w = (Inr (Some table), w')"
proof -
  let ?order = "fst (sample_pool 48 [0..<48] w)"
  let ?w = "adv 0 0 48 [] w"
  have len: "length (procedures self) = 48"
    by (simp add: init_fields(16) [OF init] length_enumerate)
  have idx: "\<forall>i \<in> set ?order. i < length (procedures self)"
    by (simp add: block_order(4) len)
  have ans': "\<forall>n < length (consumed maxrun ?order). answered (keyScript ?w (keyPos ?w + n))"
    using ans by simp
  from fullLoop_answered [OF init idx ans', of None None "replicate 48 (replicate 11 0)"]
  show ?thesis
    by (simp add: fullExperiment_eq [OF init])
qed

lemma block_log:
  assumes init: "ANTExp_init rate start dummy orig = Inr self"
      and run: "fullExperiment self maxrun w = (Inr (Some table), w')"
  shows "\<exists>rs. logged (trace w') = logged (trace w) @ rs \<and>
          map condition rs = map ((!) (procedures self)) (consumed maxrun (fst (sample_pool 48 [0..<48] w))) \<and>
          table = filter (\<lambda>row. row ! 10 = 1)
                    (fold (\<lambda>(i, r) E. E[i := table_row self i r])
                       (zip (consumed maxrun (fst (sample_pool 48 [0..<48] w))) rs)
                       (replicate 48 (replicate 11 0)))"
proof -
  let ?order = "fst (sample_pool 48 [0..<48] w)"
  have len: "length (procedures self) = 48"
    by (simp add: init_fields(16) [OF init] length_enumerate)
  have idx: "\<forall>i \<in> set ?order. i < length (procedures self)"
    by (simp add: block_order(4) len)
  from run have "fullLoop self ?order maxrun None None (replicate 48 (replicate 11 0))
      (adv 0 0 48 [] w) = (Inr (Some table), w')"
    by (simp add: fullExperiment_eq [OF init])
  from fullLoop_Some [OF init idx this] show ?thesis by simp
qed

subsection \<open>Facts about the examples and the specification's notions\<close>

lemma first_procedure:
  "enumerate_procedures ! 0 = \<lparr>cue = ''no'', tloc = ''top'', tdir = ''left'', flank = ''incongruent''\<rparr>"
  "enumerate_procedures ! 0 \<in> set enumerate_procedures"
  by (simp_all add: enumerate_procedures_def)

lemma mono_world_144: "mono (clockScript world_144)"
  unfolding world_144_def
  by (rule monoI) (auto simp: field_simps)

lemma drawn_wait_range:
  assumes "0 < (tD1max self - tD1min self + 9) div 10"
  shows "tD1min self \<le> drawn_wait self w" "drawn_wait self w < tD1max self"
    "(drawn_wait self w - tD1min self) mod 10 = 0"
proof -
  let ?n = "(tD1max self - tD1min self + 9) div 10"
  let ?k = "int (rndScript w (rndPos w) mod nat ?n)"
  have "rndScript w (rndPos w) mod nat ?n < nat ?n"
    using assms by simp
  then have k: "0 \<le> ?k" "?k < ?n"
    by (simp_all add: zless_nat_eq_int_zless)
  show "tD1min self \<le> drawn_wait self w"
    using k by (simp add: drawn_wait_def)
  have "10 * ?n \<le> tD1max self - tD1min self + 9"
    by (simp add: div_mult_self_is_m mult.commute)
  with k show "drawn_wait self w < tD1max self"
    by (simp add: drawn_wait_def)
  show "(drawn_wait self w - tD1min self) mod 10 = 0"
    by (simp add: drawn_wait_def)
qed

lemma scored_as_specified:
  assumes "d = ''left'' \<or> d = ''right''"
  shows "(k = d \<or> (k \<in> set [''f'', ''a'', ''z'', ''q''] \<and> d = ''left'') \<or>
          (k \<in> set [''j'', ''m'', ''l'', ''p''] \<and> d = ''right'')) =
         (k = d \<or> k \<in> set (alias_set d))"
  using assms by (auto simp: alias_set_def)

lemma answered_timeout: "answered (keyScript world_timeout n)"
  by (simp add: world_timeout_def answered_def)

section \<open>The claims\<close>



text \<open>
  C6. The claim has a trial whose first key is the reserved key \<^verbatim>\<open>'0'\<close> complete and return
  a record. In the code the branch of that key waits and assigns nothing to \<^verbatim>\<open>resp\<close>, so the
  return statement of the trial raises \<^verbatim>\<open>UnboundLocalError\<close>: for every experiment that
  \<^verbatim>\<open>__init__\<close> builds and every condition of its list, such a trial ends in that exception.
\<close>

theorem null_key_raises:
  assumes init: "ANTExp_init rate start dummy orig = Inr self"
      and cond: "cond \<in> set (procedures self)"
      and key: "keyScript w (keyPos w) = Some ((''0'', stamp) # others)"
  shows "fst (oneProcedure self cond short w) = Inl UnboundLocalError"
proof -
  from init_target [OF init cond] obtain target where
    tgt: "visTarget self (tloc cond @ tdir cond @ flank cond) = Some target" ..
  from oneProcedure_zero [OF init_range [OF init] tgt key refl, of short]
  show ?thesis by auto
qed

theorem null_key_raises_witness:
  "\<exists>self. ANTExp_init 60 0 False True = Inr self \<and>
     fst (oneProcedure self (procedures self ! 0) False world_null) = Inl UnboundLocalError"
proof -
  obtain self where init: "ANTExp_init 60 0 False True = Inr self"
    using init_ok [of 60 0 False True] by auto
  have cond: "procedures self ! 0 \<in> set (procedures self)"
    by (simp only: init_fields(16) [OF init] first_procedure(2))
  have key: "keyScript world_null (keyPos world_null) = Some ((''0'', 1.2) # [])"
    by (simp add: world_null_def world_mock_def)
  from null_key_raises [OF init cond key, of False] init show ?thesis by blast
qed

text \<open>
  C8. The claim has the response window wait for exactly 1700 ms, or exactly 700 ms in dummy
  mode. The code passes \<^verbatim>\<open>tOut/1000.0 - frameTime\<close> (or \<^verbatim>\<open>tDummy/1000.0 - frameTime\<close>) as
  \<^verbatim>\<open>maxWait\<close>: one frame less. First the claim as stated fails at 60 frames per second,
  where the window is 1.7 - 1/60 seconds; then the amended claim: every trial of a constructed
  experiment makes exactly one call of \<^verbatim>\<open>event.waitKeys\<close>, with \<^verbatim>\<open>maxWait\<close> 1.7 seconds minus
  one frame, or 0.7 seconds minus one frame in dummy mode.
\<close>

theorem response_window_counterexample:
  "\<exists>self. ANTExp_init 60 0 False True = Inr self \<and>
     key_waits (trace (snd (oneProcedure self (procedures self ! 0) False world_mock))) = [101 / 60] \<and>
     (101 / 60 :: real) \<noteq> 1.7"
proof -
  obtain self where init: "ANTExp_init 60 0 False True = Inr self"
    using init_ok [of 60 0 False True] by auto
  have cond: "procedures self ! 0 \<in> set (procedures self)"
    by (simp only: init_fields(16) [OF init] first_procedure(2))
  from keywait_request [OF init cond, of False world_mock] init show ?thesis
    by (intro exI [of _ self]) (simp add: world_mock_def)
qed

theorem response_window_less_one_frame:
  assumes init: "ANTExp_init rate start dummy orig = Inr self"
      and cond: "cond \<in> set (procedures self)"
      and run: "oneProcedure self cond short w = (r, w')"
  shows "key_waits (trace w') = key_waits (trace w) @ [(if dummy then 0.7 else 1.7) - 1 / rate]"
  using keywait_request [OF init cond, of short w] run by simp

theorem response_window_less_one_frame_witness:
  "\<exists>self r w'. ANTExp_init 60 0 True True = Inr self \<and>
     oneProcedure self (procedures self ! 0) False world_mock = (r, w') \<and>
     key_waits (trace w') = [0.7 - 1 / 60]"
proof -
  obtain self where init: "ANTExp_init 60 0 True True = Inr self"
    using init_ok [of 60 0 True True] by auto
  have cond: "procedures self ! 0 \<in> set (procedures self)"
    by (simp only: init_fields(16) [OF init] first_procedure(2))
  obtain r w' where run: "oneProcedure self (procedures self ! 0) False world_mock = (r, w')"
    by (cases "oneProcedure self (procedures self ! 0) False world_mock")
  from response_window_less_one_frame [OF init cond run] have
    "key_waits (trace w') = [0.7 - 1 / 60]"
    by (simp add: world_mock_def)
  with init run show ?thesis by blast
qed



text \<open>
  C3. The claim puts \<open>d1\<close> itself in the interval from \<open>tD1min/1000\<close> up to \<open>tD1max/1000\<close>. In
  the code \<open>d1\<close> is the stamp of the cue flip minus \<open>t0\<close>, and that flip comes with the
  retrace that follows the end of the wait, one frame before the deadline: on a 144 Hz
  display, with the shortest wait of 400 ms drawn, the flip of frame 57 is stamped
  57/144 s, below 0.4 s, although the clock is monotonic. What lies in the interval is the
  drawn waiting time, which sets the deadline of the cue flip. The amended claim, for a
  monotonic clock: the stage boundaries of a recorded trial do not decrease, \<open>d1\<close> is the stamp
  of the cue flip minus \<open>t0\<close>, and that flip is scheduled for \<open>t0 + r/1000\<close> with a waiting time
  \<open>r\<close> from \<open>tD1min\<close> up to, not including, \<open>tD1max\<close> in steps of 10.
\<close>

theorem fixation_interval_counterexample:
  "\<exists>self res w'. ANTExp_init 144 0 False True = Inr self \<and>
     oneProcedure self (procedures self ! 0) False world_144 = (Inr (Some res), w') \<and>
     mono (clockScript world_144) \<and>
     d1 res = 57 / 144 \<and> \<not> (real_of_int (tD1min self) / 1000 \<le> d1 res)"
proof -
  obtain self where init: "ANTExp_init 144 0 False True = Inr self"
    using init_ok [of 144 0 False True] by auto
  have cond: "procedures self ! 0 \<in> set (procedures self)"
    by (simp only: init_fields(16) [OF init] first_procedure(2))
  from init_target [OF init cond] obtain target where
    tgt: "visTarget self (tloc (procedures self ! 0) @ tdir (procedures self ! 0) @
            flank (procedures self ! 0)) = Some target" ..
  have key: "keyScript world_144 (keyPos world_144) = None"
    by (simp add: world_144_def)
  from oneProcedure_timeout [OF init_range [OF init] tgt key, of False]
  obtain w' where
    run: "oneProcedure self (procedures self ! 0) False world_144 =
            (Inr (Some (trial_record self (procedures self ! 0) False world_144 None)), w')"
    by auto
  have "d1 (trial_record self (procedures self ! 0) False world_144 None) = 57 / 144"
    by (simp add: trial_record_def world_144_def)
  with init run mono_world_144 init_fields(7) [OF init] show ?thesis
    by (intro exI [of _ self] exI [of _ "trial_record self (procedures self ! 0) False world_144 None"]
        exI [of _ w']) simp
qed

theorem stage_boundaries_monotone:
  assumes run: "oneProcedure self cond short w = (Inr (Some res), w')"
      and clock: "mono (clockScript w)"
  shows "t0 res \<le> t0 res + d1 res \<and>
         t0 res + d1 res \<le> t0 res + d1 res + ct res \<and>
         t0 res + d1 res + ct res \<le> t0 res + d1 res + ct res + d2 res \<and>
         d1 res = clockScript w (clockPos w + 2) - t0 res \<and>
         (\<exists>r after.
            tD1min self \<le> r \<and> r < tD1max self \<and> (r - tD1min self) mod 10 = 0 \<and>
            filter is_timing (trace w') =
              filter is_timing (trace w) @
                Flip # Wait (t0 res + real_of_int r / 1000 - clockScript w (clockPos w + 1) - frameTime self)
                         (frameTime self / 2) # Flip # after)"
proof -
  from oneProcedure_SomeD [OF run] obtain r es where
    res: "res = trial_record self cond short w r" and
    w': "w' = adv (if short then 9 else 10) 1 1 es w" and
    es: "filter is_timing es = trial_timing self short False w" and
    rng: "0 < (tD1max self - tD1min self + 9) div 10"
    by blast
  have le: "clockScript w (clockPos w) \<le> clockScript w (clockPos w + 2)"
      "clockScript w (clockPos w + 2) \<le> clockScript w (clockPos w + 4)"
      "clockScript w (clockPos w + 4) \<le> clockScript w (clockPos w + 6)"
    using clock by (simp_all add: mono_def)
  have bounds: "t0 res \<le> t0 res + d1 res" "t0 res + d1 res \<le> t0 res + d1 res + ct res"
      "t0 res + d1 res + ct res \<le> t0 res + d1 res + ct res + d2 res"
      "d1 res = clockScript w (clockPos w + 2) - t0 res"
    using le by (simp_all add: res trial_record_def)
  obtain after where after: "filter is_timing (trace w') =
              filter is_timing (trace w) @
                Flip # Wait (t0 res + real_of_int (drawn_wait self w) / 1000
                             - clockScript w (clockPos w + 1) - frameTime self)
                         (frameTime self / 2) # Flip # after"
    by (simp add: w' es res trial_record_def trial_timing_def window_timing_def Let_def)
  have "\<exists>r after.
            tD1min self \<le> r \<and> r < tD1max self \<and> (r - tD1min self) mod 10 = 0 \<and>
            filter is_timing (trace w') =
              filter is_timing (trace w) @
                Flip # Wait (t0 res + real_of_int r / 1000 - clockScript w (clockPos w + 1) - frameTime self)
                         (frameTime self / 2) # Flip # after"
    using drawn_wait_range [OF rng, of w] after
    by (intro exI [of _ "drawn_wait self w"] exI [of _ after]) simp
  with bounds show ?thesis by simp
qed

theorem stage_boundaries_monotone_witness:
  "\<exists>self res w' after.
     ANTExp_init 144 0 False True = Inr self \<and>
     oneProcedure self (procedures self ! 0) False world_144 = (Inr (Some res), w') \<and>
     mono (clockScript world_144) \<and>
     t0 res \<le> t0 res + d1 res \<and> t0 res + d1 res \<le> t0 res + d1 res + ct res \<and>
     t0 res + d1 res + ct res \<le> t0 res + d1 res + ct res + d2 res \<and>
     filter is_timing (trace w') = Flip # Wait (0 + 400 / 1000 - 1 / 1000 - 1 / 144) (1 / 288) # Flip # after"
proof -
  obtain self where init: "ANTExp_init 144 0 False True = Inr self"
    using init_ok [of 144 0 False True] by auto
  have cond: "procedures self ! 0 \<in> set (procedures self)"
    by (simp only: init_fields(16) [OF init] first_procedure(2))
  from init_target [OF init cond] obtain target where
    tgt: "visTarget self (tloc (procedures self ! 0) @ tdir (procedures self ! 0) @
            flank (procedures self ! 0)) = Some target" ..
  have key: "keyScript world_144 (keyPos world_144) = None"
    by (simp add: world_144_def)
  from oneProcedure_timeout [OF init_range [OF init] tgt key, of False]
  obtain res w' where
    run: "oneProcedure self (procedures self ! 0) False world_144 = (Inr (Some res), w')"
    by auto
  note all = stage_boundaries_monotone [OF run mono_world_144]
  from all have
    b: "t0 res \<le> t0 res + d1 res" "t0 res + d1 res \<le> t0 res + d1 res + ct res"
       "t0 res + d1 res + ct res \<le> t0 res + d1 res + ct res + d2 res"
    by blast+
  from all obtain r after where
    tr: "filter is_timing (trace w') =
              filter is_timing (trace world_144) @
                Flip # Wait (t0 res + real_of_int r / 1000 - clockScript world_144 (clockPos world_144 + 1)
                             - frameTime self)
                         (frameTime self / 2) # Flip # after"
    by (elim conjE exE) (rule that)
  from oneProcedure_SomeD [OF run] obtain es where
    es: "w' = adv 10 1 1 es world_144" "filter is_timing es = trial_timing self False False world_144"
    by auto
  have "filter is_timing (trace w') ! 1 =
      Wait (0 + 400 / 1000 - 1 / 1000 - 1 / 144) (1 / 288)"
    by (simp add: es trial_timing_def window_timing_def drawn_wait_def Let_def
        init_fields [OF init]) (simp add: world_144_def)
  with tr have "Wait (t0 res + real_of_int r / 1000 - clockScript world_144 (clockPos world_144 + 1)
                             - frameTime self) (frameTime self / 2) =
      Wait (0 + 400 / 1000 - 1 / 1000 - 1 / 144) (1 / 288)"
    by (simp add: world_144_def)
  with tr have "filter is_timing (trace w') =
      Flip # Wait (0 + 400 / 1000 - 1 / 1000 - 1 / 144) (1 / 288) # Flip # after"
    by (simp add: world_144_def)
  with init run mono_world_144 b show ?thesis by blast
qed

text \<open>
  C5. The claim calls every captured key that matches neither the direction nor its alias set
  Incorrect, escape apart. The code sets the reserved key \<^verbatim>\<open>'0'\<close> apart as well: its branch
  scores nothing, and such a trial returns no record with an Incorrect response (direction
  left, key \<^verbatim>\<open>'0'\<close>, below). The amended claim, for the trials of a constructed experiment:
  no key within the window gives a record with response \<^verbatim>\<open>None\<close> (Timeout); escape gives no
  record, and a block that meets it returns \<^verbatim>\<open>None\<close> at once and writes nothing to the log;
  any other key but \<^verbatim>\<open>'0'\<close> gives a record with response \<^verbatim>\<open>'OK'\<close> (Correct) when it is the
  name of the target direction or in that direction's alias set, and \<^verbatim>\<open>'NOK'\<close> (Incorrect)
  otherwise.
\<close>

theorem classification_counterexample:
  "\<exists>self. ANTExp_init 60 0 False True = Inr self \<and>
     tdir (procedures self ! 0) = ''left'' \<and>
     keyScript (world_key ''0'') (keyPos (world_key ''0'')) = Some [(''0'', 1.2)] \<and>
     ''0'' \<noteq> ''escape'' \<and> ''0'' \<noteq> ''left'' \<and> ''0'' \<notin> set (alias_set ''left'') \<and>
     fst (oneProcedure self (procedures self ! 0) True (world_key ''0'')) = Inl UnboundLocalError"
proof -
  obtain self where init: "ANTExp_init 60 0 False True = Inr self"
    using init_ok [of 60 0 False True] by auto
  have procs: "procedures self = enumerate_procedures"
    by (rule init_fields(16) [OF init])
  have cond: "procedures self ! 0 \<in> set (procedures self)"
    by (simp only: procs first_procedure(2))
  from init_target [OF init cond] obtain target where
    tgt: "visTarget self (tloc (procedures self ! 0) @ tdir (procedures self ! 0) @
            flank (procedures self ! 0)) = Some target" ..
  have key: "keyScript (world_key ''0'') (keyPos (world_key ''0'')) = Some ((''0'', 1.2) # [])"
    by (simp add: world_key_def world_mock_def)
  from oneProcedure_zero [OF init_range [OF init] tgt key refl, of True]
  have "fst (oneProcedure self (procedures self ! 0) True (world_key ''0'')) = Inl UnboundLocalError"
    by auto
  with init key show ?thesis
    by (intro exI [of _ self]) (simp add: procs first_procedure(1) alias_set_def)
qed

theorem response_classification:
  assumes init: "ANTExp_init rate start dummy orig = Inr self"
      and cond: "cond \<in> set (procedures self)"
  shows "(keyScript w (keyPos w) = None \<longrightarrow>
            (\<exists>res. fst (oneProcedure self cond short w) = Inr (Some res) \<and> resp res = None)) \<and>
         (\<forall>k stamp others. keyScript w (keyPos w) = Some ((k, stamp) # others) \<longrightarrow>
            (k = ''escape'' \<longrightarrow> fst (oneProcedure self cond short w) = Inr None) \<and>
            (k \<noteq> ''escape'' \<and> k \<noteq> ''0'' \<longrightarrow>
               (\<exists>res. fst (oneProcedure self cond short w) = Inr (Some res) \<and>
                  resp res = Some (if k = tdir cond \<or> k \<in> set (alias_set (tdir cond))
                                   then ''OK'' else ''NOK'')))) \<and>
         (\<forall>i rest maxrun wty cgr E stamp others.
            i < length (procedures self) \<and>
            keyScript w (keyPos w) = Some ((''escape'', stamp) # others) \<longrightarrow>
              fst (fullLoop self (i # rest) maxrun wty cgr E w) = Inr None \<and>
              logged (trace (snd (fullLoop self (i # rest) maxrun wty cgr E w))) = logged (trace w))"
proof (intro conjI allI impI)
  from init_target [OF init cond] obtain target where
    tgt: "visTarget self (tloc cond @ tdir cond @ flank cond) = Some target" ..
  note rng = init_range [OF init]
  have dir: "tdir cond = ''left'' \<or> tdir cond = ''right''"
    using cond enumerate_tags(2) [of cond] by (simp add: init_fields(16) [OF init])
  {
    assume "keyScript w (keyPos w) = None"
    from oneProcedure_timeout [OF rng tgt this, of short]
    show "\<exists>res. fst (oneProcedure self cond short w) = Inr (Some res) \<and> resp res = None"
      by (auto simp: trial_record_def)
  }
  {
    fix k stamp others
    assume key: "keyScript w (keyPos w) = Some ((k, stamp) # others)"
    {
      assume "k = ''escape''"
      from oneProcedure_escape [OF rng tgt key this, of short]
      show "fst (oneProcedure self cond short w) = Inr None" by auto
    }
    {
      assume "k \<noteq> ''escape'' \<and> k \<noteq> ''0''"
      then have k: "k \<noteq> ''escape''" "k \<noteq> ''0''" by simp_all
      from oneProcedure_scored [OF rng tgt key k, of short]
      show "\<exists>res. fst (oneProcedure self cond short w) = Inr (Some res) \<and>
                  resp res = Some (if k = tdir cond \<or> k \<in> set (alias_set (tdir cond))
                                   then ''OK'' else ''NOK'')"
        unfolding scored_as_specified [OF dir] by (auto simp: trial_record_def)
    }
  }
  {
    fix i rest maxrun wty cgr E stamp others
    assume a: "i < length (procedures self) \<and>
            keyScript w (keyPos w) = Some ((''escape'', stamp) # others)"
    then have i: "i < length (procedures self)" and
      key: "keyScript w (keyPos w) = Some ((''escape'', stamp) # others)" by simp_all
    from i have "procedures self ! i \<in> set (procedures self)" by simp
    from init_target [OF init this] obtain target' where
      tgt': "visTarget self (tloc (procedures self ! i) @ tdir (procedures self ! i) @
               flank (procedures self ! i)) = Some target'" ..
    from oneProcedure_escape [OF rng tgt' key refl, of False] obtain es where
      run: "oneProcedure self (procedures self ! i) False w = (Inr None, adv 10 1 1 es w)" and
      es: "logged es = []"
      by auto
    from fullLoop_abort [OF i run]
    have loop: "fullLoop self (i # rest) maxrun wty cgr E w = (Inr None, adv 10 1 1 es w)" .
    show "fst (fullLoop self (i # rest) maxrun wty cgr E w) = Inr None"
      by (simp only: loop fst_conv)
    show "logged (trace (snd (fullLoop self (i # rest) maxrun wty cgr E w))) = logged (trace w)"
      by (simp only: loop snd_conv) (simp add: logged_append es)
  }
qed

theorem response_classification_witness:
  "\<exists>self. ANTExp_init 60 0 False True = Inr self \<and>
     tdir (procedures self ! 0) = ''left'' \<and>
     (\<exists>res. fst (oneProcedure self (procedures self ! 0) False (world_key ''a'')) = Inr (Some res) \<and>
        resp res = Some ''OK'') \<and>
     (\<exists>res. fst (oneProcedure self (procedures self ! 0) False (world_key ''j'')) = Inr (Some res) \<and>
        resp res = Some ''NOK'') \<and>
     (\<exists>res. fst (oneProcedure self (procedures self ! 0) False world_timeout) = Inr (Some res) \<and>
        resp res = None) \<and>
     fst (oneProcedure self (procedures self ! 0) False (world_key ''escape'')) = Inr None \<and>
     fst (fullLoop self [0] None None None [] (world_key ''escape'')) = Inr None"
proof -
  obtain self where init: "ANTExp_init 60 0 False True = Inr self"
    using init_ok [of 60 0 False True] by auto
  have procs: "procedures self = enumerate_procedures"
    by (rule init_fields(16) [OF init])
  have cond: "procedures self ! 0 \<in> set (procedures self)"
    by (simp only: procs first_procedure(2))
  have left: "tdir (procedures self ! 0) = ''left''"
    by (simp add: procs first_procedure(1))
  have len: "0 < length (procedures self)"
    by (simp add: procs length_enumerate)
  have key: "keyScript (world_key k) (keyPos (world_key k)) = Some ((k, 1.2) # [])" for k
    by (simp add: world_key_def world_mock_def)
  have none: "keyScript world_timeout (keyPos world_timeout) = None"
    by (simp add: world_timeout_def world_mock_def)
  note c = response_classification [OF init cond, of _ False]
  have scored: "\<exists>res. fst (oneProcedure self (procedures self ! 0) False (world_key k)) = Inr (Some res) \<and>
        resp res = Some (if k = tdir (procedures self ! 0) \<or> k \<in> set (alias_set (tdir (procedures self ! 0)))
                         then ''OK'' else ''NOK'')"
    if "k \<noteq> ''escape''" "k \<noteq> ''0''" for k
    using c [of "world_key k"] key [of k] that by blast
  from scored [of "''a''"]
  have a: "\<exists>res. fst (oneProcedure self (procedures self ! 0) False (world_key ''a'')) = Inr (Some res) \<and>
        resp res = Some ''OK''"
    by (simp add: left alias_set_def)
  from scored [of "''j''"]
  have j: "\<exists>res. fst (oneProcedure self (procedures self ! 0) False (world_key ''j'')) = Inr (Some res) \<and>
        resp res = Some ''NOK''"
    by (simp add: left alias_set_def)
  from c [of world_timeout] none
  have t: "\<exists>res. fst (oneProcedure self (procedures self ! 0) False world_timeout) = Inr (Some res) \<and>
        resp res = None"
    by blast
  from c [of "world_key ''escape''"] key [of "''escape''"]
  have e1: "fst (oneProcedure self (procedures self ! 0) False (world_key ''escape'')) = Inr None"
    by blast
  from c [of "world_key ''escape''"] key [of "''escape''"] len
  have e2: "fst (fullLoop self [0] None None None [] (world_key ''escape'')) = Inr None"
    by blast
  note e = e1 e2
  from init left a j t e show ?thesis by blast
qed

text \<open>
  C9. For every location, every direction (left or right) and every congruency, the
  composite that \<^verbatim>\<open>_targetStim\<close> builds shows, at its five positions from left to right:
  in dummy mode five plain lines; else for congruent flankers five arrows in the target
  direction, for incongruent flankers four arrows in the opposite direction around a central
  arrow in the target direction, and for neutral flankers four plain lines around a central
  arrow in the target direction. The sizes are positive, as those of \<^verbatim>\<open>__init__\<close> are.
\<close>

theorem congruency_policy:
  assumes sz: "0 < arrowSize self" and sep: "0 < arrowSize self + arrowSep self"
      and d: "d = ''left'' \<or> d = ''right''"
      and fl: "fl = ''congruent'' \<or> fl = ''incongruent'' \<or> fl = ''neutral''"
  shows "\<exists>stim. targetStim self loc d fl = Inr stim \<and>
           map (glyph_at stim) (positions self loc) =
             (if runDummy self then [Some Plain, Some Plain, Some Plain, Some Plain, Some Plain]
              else if fl = ''congruent'' then
                [Some (Arrow d), Some (Arrow d), Some (Arrow d), Some (Arrow d), Some (Arrow d)]
              else if fl = ''incongruent'' then
                [Some (Arrow (opposite d)), Some (Arrow (opposite d)), Some (Arrow d),
                 Some (Arrow (opposite d)), Some (Arrow (opposite d))]
              else [Some Plain, Some Plain, Some (Arrow d), Some Plain, Some Plain])"
proof (cases "runDummy self")
  case True
  with glyph_cases(1) [OF sz sep d] show ?thesis by simp
next
  case False
  from fl consider "fl = ''congruent''" | "fl = ''incongruent''" | "fl = ''neutral''" by blast
  then show ?thesis
  proof cases
    case 1
    with glyph_cases(2) [OF sz sep d False] False show ?thesis by simp
  next
    case 2
    with glyph_cases(3) [OF sz sep d False] False show ?thesis by simp
  next
    case 3
    with glyph_cases(4) [OF sz sep d False] False show ?thesis by simp
  qed
qed

theorem congruency_policy_witness:
  "\<exists>self stim. ANTExp_init 60 0 False True = Inr self \<and>
     targetStim self ''top'' ''left'' ''incongruent'' = Inr stim \<and>
     visTarget self (''top'' @ ''left'' @ ''incongruent'') \<noteq> None \<and>
     map (glyph_at stim) [(- 1.22, 1.06), (- 0.61, 1.06), (0, 1.06), (0.61, 1.06), (1.22, 1.06)] =
       [Some (Arrow ''right''), Some (Arrow ''right''), Some (Arrow ''left''),
        Some (Arrow ''right''), Some (Arrow ''right'')]"
proof -
  obtain self where init: "ANTExp_init 60 0 False True = Inr self"
    using init_ok [of 60 0 False True] by auto
  note f = init_fields [OF init]
  have sz: "0 < arrowSize self" "0 < arrowSize self + arrowSep self"
    by (simp_all add: f)
  from congruency_policy [OF sz, of "''left''" "''incongruent''" "''top''"] obtain stim where
    stim: "targetStim self ''top'' ''left'' ''incongruent'' = Inr stim" and
    glyphs: "map (glyph_at stim) (positions self ''top'') =
       [Some (Arrow ''right''), Some (Arrow ''right''), Some (Arrow ''left''),
        Some (Arrow ''right''), Some (Arrow ''right'')]"
    by (auto simp: f opposite_def)
  have pos: "positions self ''top'' =
      [(- 1.22, 1.06), (- 0.61, 1.06), (0, 1.06), (0.61, 1.06), (1.22, 1.06)]"
    by (simp add: positions_def f Let_def)
  have cond: "procedures self ! 0 \<in> set (procedures self)"
    by (simp only: f(16) first_procedure(2))
  from init_target [OF init cond]
  have "visTarget self (''top'' @ ''left'' @ ''incongruent'') \<noteq> None"
    by (simp add: f(16) first_procedure(1))
  with init stim glyphs pos show ?thesis by auto
qed

text \<open>
  C1. The claim has a block that is aborted after some trials return those trials. The code
  returns \<^verbatim>\<open>None\<close> from \<^verbatim>\<open>fullExperiment\<close> as soon as a trial returns \<^verbatim>\<open>None\<close> (lines 405-406),
  and its callers test the block for \<^verbatim>\<open>None\<close>: in \<open>world_abort\<close> one trial completes and is
  logged, the second is aborted, and the block returns \<^verbatim>\<open>None\<close>, not a table of one row. The
  amended claim: when the trial number \<open>j\<close> of a block (counted from 0, within the 48 trials and
  within \<open>maxrun\<close>) meets escape after \<open>j\<close> trials that were answered or timed out, the block
  returns \<^verbatim>\<open>None\<close>, no table; the \<open>j\<close> earlier trials have been written to the log, and
  nothing is logged for the aborted one.
\<close>

theorem abort_returns_table_counterexample:
  "\<exists>self w'. ANTExp_init 60 0 False True = Inr self \<and>
     keyScript world_abort (keyPos world_abort) = None \<and>
     keyScript world_abort (keyPos world_abort + 1) = Some [(''escape'', 1.2)] \<and>
     fullExperiment self None world_abort = (Inr None, w') \<and>
     length (logged (trace w')) = 1"
proof -
  obtain self where init: "ANTExp_init 60 0 False True = Inr self"
    using init_ok [of 60 0 False True] by auto
  have k0: "keyScript world_abort (keyPos world_abort) = None"
    and k1: "keyScript world_abort (keyPos world_abort + 1) = Some ((''escape'', 1.2) # [])"
    by (simp_all add: world_abort_def world_mock_def)
  have ans: "\<forall>n < 1. answered (keyScript world_abort (keyPos world_abort + n))"
    using k0 by (simp add: answered_def)
  have tr: "logged (trace world_abort) = []"
    by (simp add: world_abort_def world_mock_def)
  from block_abort [OF init _ _ ans k1, of None] obtain w' where
    "fullExperiment self None world_abort = (Inr None, w')" "length (logged (trace w')) = 1"
    by (auto simp: tr)
  with init k0 k1 show ?thesis by blast
qed

theorem abort_returns_none:
  assumes init: "ANTExp_init rate start dummy orig = Inr self"
      and j: "j < 48"
      and cap: "case maxrun of None \<Rightarrow> True | Some m \<Rightarrow> m \<le> 0 \<or> int j < m"
      and ans: "\<forall>n < j. answered (keyScript w (keyPos w + n))"
      and esc: "keyScript w (keyPos w + j) = Some ((''escape'', stamp) # others)"
  shows "fst (fullExperiment self maxrun w) = Inr None \<and>
         length (logged (trace (snd (fullExperiment self maxrun w)))) = length (logged (trace w)) + j"
  using block_abort [OF init j cap ans esc] by auto

theorem abort_returns_none_witness:
  "\<exists>self. ANTExp_init 60 0 False True = Inr self \<and>
     answered (keyScript world_abort (keyPos world_abort)) \<and>
     keyScript world_abort (keyPos world_abort + 1) = Some [(''escape'', 1.2)] \<and>
     fst (fullExperiment self (Some 5) world_abort) = Inr None \<and>
     length (logged (trace (snd (fullExperiment self (Some 5) world_abort)))) = 1"
proof -
  obtain self where init: "ANTExp_init 60 0 False True = Inr self"
    using init_ok [of 60 0 False True] by auto
  have k0: "answered (keyScript world_abort (keyPos world_abort))"
    and k1: "keyScript world_abort (keyPos world_abort + 1) = Some ((''escape'', 1.2) # [])"
    by (simp_all add: world_abort_def world_mock_def answered_def)
  have ans: "\<forall>n < 1. answered (keyScript world_abort (keyPos world_abort + n))"
    using k0 by simp
  have tr: "logged (trace world_abort) = []"
    by (simp add: world_abort_def world_mock_def)
  from abort_returns_none [OF init _ _ ans k1, of "Some 5"]
  have "fst (fullExperiment self (Some 5) world_abort) = Inr None"
    "length (logged (trace (snd (fullExperiment self (Some 5) world_abort)))) = 1"
    by (simp_all add: tr)
  with init k0 k1 show ?thesis by blast
qed

text \<open>
  C4. For every block of a constructed experiment: the random order is a permutation of the
  48 indices (the same multiset, so every condition once); it is a function of the state of
  the random generator alone, so two runs from the same seed have the same order; and it is
  drawn over all 48 indices whatever \<open>maxrun\<close> is: a block that runs to its end has run,
  and logged, the conditions of the whole order, or those of its first \<open>maxrun\<close> indices when
  \<open>maxrun\<close> is 1 or more.
\<close>

theorem block_randomizer:
  assumes init: "ANTExp_init rate start dummy orig = Inr self"
  shows "\<exists>order.
           fst (sample [0..<length (procedures self)] (length (procedures self)) w) = Inr order \<and>
           mset order = mset [0..<48] \<and>
           (\<forall>w2. rndScript w2 = rndScript w \<and> rndPos w2 = rndPos w \<longrightarrow>
              fst (sample [0..<length (procedures self)] (length (procedures self)) w2) = Inr order) \<and>
           (\<forall>maxrun table w'. fullExperiment self maxrun w = (Inr (Some table), w') \<longrightarrow>
              map condition (logged (trace w')) =
                map condition (logged (trace w)) @
                map ((!) (procedures self))
                  (case maxrun of None \<Rightarrow> order
                   | Some m \<Rightarrow> if 1 \<le> m then take (nat m) order else order))"
proof -
  let ?order = "fst (sample_pool 48 [0..<48] w)"
  have len: "length (procedures self) = 48"
    by (simp add: init_fields(16) [OF init] length_enumerate)
  have s: "fst (sample [0..<48] 48 v) = Inr (fst (sample_pool 48 [0..<48] v))" for v
    using sample_all [of "[0..<48]" v] by simp
  have seed: "fst (sample [0..<48] 48 w2) = Inr ?order"
    if "rndScript w2 = rndScript w \<and> rndPos w2 = rndPos w" for w2
    using sample_pool_seed [of w2 w 48 "[0..<48]"] that by (simp add: s)
  have log: "map condition (logged (trace w')) =
                map condition (logged (trace w)) @
                map ((!) (procedures self))
                  (case maxrun of None \<Rightarrow> ?order
                   | Some m \<Rightarrow> if 1 \<le> m then take (nat m) ?order else ?order)"
    if "fullExperiment self maxrun w = (Inr (Some table), w')" for maxrun table w'
    using block_log [OF init that] by (auto simp: consumed_def)
  show ?thesis
    unfolding len
    using s [of w] block_order(1) [of w] seed log
    by (intro exI [of _ ?order]) blast
qed

theorem block_randomizer_witness:
  "\<exists>self order table w'.
     ANTExp_init 60 0 False True = Inr self \<and>
     fst (sample [0..<48] 48 world_timeout) = Inr order \<and>
     mset order = mset [0..<48] \<and>
     fullExperiment self (Some 3) world_timeout = (Inr (Some table), w') \<and>
     map condition (logged (trace w')) = map ((!) (procedures self)) (take 3 order)"
proof -
  obtain self where init: "ANTExp_init 60 0 False True = Inr self"
    using init_ok [of 60 0 False True] by auto
  have len: "length (procedures self) = 48"
    by (simp add: init_fields(16) [OF init] length_enumerate)
  from block_completes [OF init, of world_timeout "Some 3"] answered_timeout
  obtain table w' where
    run: "fullExperiment self (Some 3) world_timeout = (Inr (Some table), w')"
    by blast
  have tr: "logged (trace world_timeout) = []"
    by (simp add: world_timeout_def world_mock_def)
  from block_randomizer [OF init, of world_timeout, unfolded len] obtain order where
    o: "fst (sample [0..<48] 48 world_timeout) = Inr order" "mset order = mset [0..<48]" and
    l: "\<forall>maxrun table w'. fullExperiment self maxrun world_timeout = (Inr (Some table), w') \<longrightarrow>
              map condition (logged (trace w')) =
                map condition (logged (trace world_timeout)) @
                map ((!) (procedures self))
                  (case maxrun of None \<Rightarrow> order
                   | Some m \<Rightarrow> if 1 \<le> m then take (nat m) order else order)"
    by blast
  from l run have "map condition (logged (trace w')) =
                map condition (logged (trace world_timeout)) @
                map ((!) (procedures self))
                  (case Some 3 of None \<Rightarrow> order
                   | Some m \<Rightarrow> if 1 \<le> m then take (nat m) order else order)"
    by blast
  then have "map condition (logged (trace w')) = map ((!) (procedures self)) (take 3 order)"
    by (simp add: tr)
  with init o run show ?thesis by blast
qed

text \<open>
  C10. For every block of a constructed experiment that runs all 48 trials (\<open>maxrun\<close> absent,
  below 1, or at least 48) and returns a table: the table has 48 rows, and row \<open>i\<close> holds the
  values of a logged trial result whose condition is entry \<open>i\<close> of the enumeration: its \<open>t0\<close>,
  the index \<open>i\<close>, the codes of that condition's cue and flankers, its \<open>d1\<close>, \<open>ct\<close>, \<open>d2\<close>, \<open>rt\<close>
  and \<open>tf\<close>, 1 for the response \<^verbatim>\<open>'OK'\<close> and 0 otherwise, and the flag 1. The rows follow
  the enumeration, whatever the order of execution was.
\<close>

theorem table_in_enumeration_order:
  assumes init: "ANTExp_init rate start dummy orig = Inr self"
      and full: "case maxrun of None \<Rightarrow> True | Some m \<Rightarrow> m \<le> 0 \<or> 48 \<le> m"
      and run: "fullExperiment self maxrun w = (Inr (Some table), w')"
  shows "length table = 48 \<and>
         (\<forall>i < 48. \<exists>res \<in> set (logged (trace w')).
            condition res = procedures self ! i \<and>
            table ! i =
              [t0 res, real i, warning_code (cue (procedures self ! i)),
               congruency_code (flank (procedures self ! i)), d1 res, ct res, d2 res, rt res,
               tf res, (if resp res = Some ''OK'' then 1 else 0), 1])"
proof -
  let ?order = "fst (sample_pool 48 [0..<48] w)"
  let ?f = "\<lambda>(i, r) E. E[i := table_row self i r]"
  let ?Z = "replicate 48 (replicate 11 (0::real))"
  have all: "consumed maxrun ?order = ?order"
    using full by (auto simp: consumed_def block_order(2) split: option.splits)
  from block_log [OF init run] obtain rs where
    logd: "logged (trace w') = logged (trace w) @ rs" and
    conds: "map condition rs = map ((!) (procedures self)) ?order" and
    table: "table = filter (\<lambda>row. row ! 10 = 1) (fold ?f (zip ?order rs) ?Z)"
    unfolding all by blast
  let ?E = "fold ?f (zip ?order rs) ?Z"
  from conds have lrs: "length rs = length ?order"
    by (metis length_map)
  have idx: "\<forall>i \<in> set ?order. i < length ?Z"
    by (simp add: block_order(4))
  from fold_rows [OF block_order(3) lrs idx, of self] have
    lenE: "length ?E = 48" and
    rows: "\<forall>k < length ?order. ?E ! (?order ! k) = table_row self (?order ! k) (rs ! k)"
    by simp_all
  have row: "\<exists>res \<in> set (logged (trace w')).
      condition res = procedures self ! i \<and> ?E ! i = table_row self i res" if "i < 48" for i
  proof -
    from that have "i \<in> set ?order" by (simp add: block_order(4))
    then obtain k where k: "k < length ?order" "?order ! k = i"
      by (auto simp: in_set_conv_nth)
    from k rows have "?E ! i = table_row self i (rs ! k)" by auto
    moreover have "condition (rs ! k) = procedures self ! i"
    proof -
      have "map condition rs ! k = map ((!) (procedures self)) ?order ! k"
        by (simp only: conds)
      with k lrs show ?thesis by simp
    qed
    moreover have "rs ! k \<in> set (logged (trace w'))"
      using k lrs by (simp add: logd)
    ultimately show ?thesis by blast
  qed
  have complete: "\<forall>r \<in> set ?E. r ! 10 = 1"
  proof
    fix r
    assume "r \<in> set ?E"
    then obtain i where i: "i < 48" "r = ?E ! i"
      using lenE by (auto simp: in_set_conv_nth)
    from row [OF i(1)] i(2) show "r ! 10 = 1"
      by (auto simp: table_row_def)
  qed
  then have tE: "table = ?E"
    unfolding table by simp
  from row show ?thesis
    unfolding tE using lenE by (simp add: table_row_def)
qed

theorem table_in_enumeration_order_witness:
  "\<exists>self table w'.
     ANTExp_init 60 0 False True = Inr self \<and>
     fullExperiment self None world_timeout = (Inr (Some table), w') \<and>
     length table = 48 \<and> table ! 5 ! 1 = 5 \<and> table ! 47 ! 1 = 47 \<and>
     table ! 0 ! 2 = 0 \<and> table ! 0 ! 3 = 1"
proof -
  obtain self where init: "ANTExp_init 60 0 False True = Inr self"
    using init_ok [of 60 0 False True] by auto
  from block_completes [OF init, of world_timeout None] answered_timeout
  obtain table w' where
    run: "fullExperiment self None world_timeout = (Inr (Some table), w')"
    by blast
  note t = table_in_enumeration_order [OF init _ run]
  from t have len: "length table = 48" by simp
  have row: "table ! i ! 1 = real i \<and>
      table ! i ! 2 = warning_code (cue (procedures self ! i)) \<and>
      table ! i ! 3 = congruency_code (flank (procedures self ! i))" if "i < 48" for i
  proof -
    from t have "\<forall>i < 48. \<exists>res \<in> set (logged (trace w')).
            condition res = procedures self ! i \<and>
            table ! i =
              [t0 res, real i, warning_code (cue (procedures self ! i)),
               congruency_code (flank (procedures self ! i)), d1 res, ct res, d2 res, rt res,
               tf res, (if resp res = Some ''OK'' then 1 else 0), 1]"
      by simp
    then have "i < 48 \<longrightarrow> (\<exists>res \<in> set (logged (trace w')).
            condition res = procedures self ! i \<and>
            table ! i =
              [t0 res, real i, warning_code (cue (procedures self ! i)),
               congruency_code (flank (procedures self ! i)), d1 res, ct res, d2 res, rt res,
               tf res, (if resp res = Some ''OK'' then 1 else 0), 1])"
      by (rule spec)
    from this that have "\<exists>res \<in> set (logged (trace w')).
            condition res = procedures self ! i \<and>
            table ! i =
              [t0 res, real i, warning_code (cue (procedures self ! i)),
               congruency_code (flank (procedures self ! i)), d1 res, ct res, d2 res, rt res,
               tf res, (if resp res = Some ''OK'' then 1 else 0), 1]"
      by (rule mp)
    then obtain res :: result where "table ! i =
              [t0 res, real i, warning_code (cue (procedures self ! i)),
               congruency_code (flank (procedures self ! i)), d1 res, ct res, d2 res, rt res,
               tf res, (if resp res = Some ''OK'' then 1 else 0), 1]"
      by blast
    then show ?thesis by simp
  qed
  have "table ! 5 ! 1 = 5" "table ! 47 ! 1 = 47" "table ! 0 ! 2 = 0" "table ! 0 ! 3 = 1"
    using row [of 5] row [of 47] row [of 0]
    by (simp_all add: init_fields(16) [OF init] first_procedure(1) warning_code_def
        congruency_code_def)
  with init run len show ?thesis by blast
qed

end
